theory Spec2Isabelle
  imports Main "HOL-Library.Sublist"
begin

section \<open>Text\<close>

text \<open>
  Python strings are modelled as \<open>string\<close>, one \<open>char\<close> per character, for ASCII
  text: \<open>lower\<close> is \<open>str.lower\<close> and \<open>strip\<close> is \<open>str.strip\<close> on ASCII, where the
  white space characters are the codes 9 to 13 and 28 to 32.
\<close>

definition is_space :: "char \<Rightarrow> bool" where
  "is_space c = (let n = (of_char c :: nat) in (9 \<le> n \<and> n \<le> 13) \<or> (28 \<le> n \<and> n \<le> 32))"

definition lower_char :: "char \<Rightarrow> char" where
  "lower_char c = (let n = (of_char c :: nat) in if 65 \<le> n \<and> n \<le> 90 then char_of (n + 32) else c)"

definition lower :: "string \<Rightarrow> string" where
  "lower s = map lower_char s"

definition strip :: "string \<Rightarrow> string" where
  "strip s = rev (dropWhile is_space (rev (dropWhile is_space s)))"

text \<open>\<open>a or b\<close> on two strings: the empty string is falsy.\<close>

definition str_or :: "string \<Rightarrow> string \<Rightarrow> string" where
  "str_or a b = (if a \<noteq> [] then a else b)"

text \<open>\<open>s.replace(a, b)\<close> for a single character \<open>a\<close>.\<close>

definition replace_char :: "char \<Rightarrow> string \<Rightarrow> string \<Rightarrow> string" where
  "replace_char a b s = concat (map (\<lambda>c. if c = a then b else [c]) s)"

section \<open>The JSON library\<close>

text \<open>
  \<open>json.dumps\<close> and \<open>json.loads\<close> on the values the script handles: \<open>None\<close>, truth
  values, integers, text, lists and dictionaries. A dictionary is the list of its
  members in their order. Number literals with a fraction or an exponent (floating
  point) and escapes of characters beyond the 8-bit range are outside the model:
  \<open>json_loads\<close> rejects them.
\<close>

datatype json = JNull | JBool bool | JInt int | JStr string | JArr "json list" | JObj "(string \<times> json) list"

definition hex_digit :: "nat \<Rightarrow> char" where
  "hex_digit n = (if n < 10 then char_of (48 + n) else char_of (87 + n))"

definition escape_char :: "char \<Rightarrow> string" where
  "escape_char c =
     (if c = CHR ''\"'' then [CHR 0x5C, CHR ''\"'']
      else if c = CHR 0x5C then [CHR 0x5C, CHR 0x5C]
      else if c = CHR 0x0A then [CHR 0x5C, CHR ''n'']
      else if c = CHR 0x0D then [CHR 0x5C, CHR ''r'']
      else if c = CHR 0x09 then [CHR 0x5C, CHR ''t'']
      else if c = CHR 0x08 then [CHR 0x5C, CHR ''b'']
      else if c = CHR 0x0C then [CHR 0x5C, CHR ''f'']
      else if (of_char c :: nat) < 32
        then [CHR 0x5C, CHR ''u'', CHR ''0'', CHR ''0'',
              hex_digit ((of_char c :: nat) div 16), hex_digit ((of_char c :: nat) mod 16)]
      else [c])"

definition encode_string :: "string \<Rightarrow> string" where
  "encode_string s = [CHR ''\"''] @ concat (map escape_char s) @ [CHR ''\"'']"

fun digits :: "nat \<Rightarrow> string" where
  "digits n = (if n < 10 then [char_of (48 + n)] else digits (n div 10) @ [char_of (48 + n mod 10)])"

declare digits.simps [simp del]

definition encode_int :: "int \<Rightarrow> string" where
  "encode_int i = (if i < 0 then CHR ''-'' # digits (nat (- i)) else digits (nat i))"

fun join :: "string \<Rightarrow> string list \<Rightarrow> string" where
  "join sep [] = []"
| "join sep [x] = x"
| "join sep (x # y # ys) = x @ sep @ join sep (y # ys)"

fun json_dumps :: "json \<Rightarrow> string" where
  "json_dumps JNull = ''null''"
| "json_dumps (JBool b) = (if b then ''true'' else ''false'')"
| "json_dumps (JInt i) = encode_int i"
| "json_dumps (JStr s) = encode_string s"
| "json_dumps (JArr xs) = ''['' @ join '', '' (map json_dumps xs) @ '']''"
| "json_dumps (JObj kvs) =
     ''{'' @ join '', '' (map (\<lambda>(k, v). encode_string k @ '': '' @ json_dumps v) kvs) @ ''}''"

definition is_ws :: "char \<Rightarrow> bool" where
  "is_ws c = (c = CHR '' '' \<or> c = CHR 0x09 \<or> c = CHR 0x0A \<or> c = CHR 0x0D)"

definition skip_ws :: "string \<Rightarrow> string" where
  "skip_ws s = dropWhile is_ws s"

definition is_digit :: "char \<Rightarrow> bool" where
  "is_digit c = (48 \<le> (of_char c :: nat) \<and> (of_char c :: nat) \<le> 57)"

definition hex_value :: "char \<Rightarrow> nat option" where
  "hex_value c =
     (let n = (of_char c :: nat) in
      if 48 \<le> n \<and> n \<le> 57 then Some (n - 48)
      else if 97 \<le> n \<and> n \<le> 102 then Some (n - 87)
      else if 65 \<le> n \<and> n \<le> 70 then Some (n - 55)
      else None)"

definition unescape :: "char \<Rightarrow> char option" where
  "unescape e =
     (if e = CHR ''\"'' then Some (CHR ''\"'')
      else if e = CHR 0x5C then Some (CHR 0x5C)
      else if e = CHR ''/'' then Some (CHR ''/'')
      else if e = CHR ''b'' then Some (CHR 0x08)
      else if e = CHR ''f'' then Some (CHR 0x0C)
      else if e = CHR ''n'' then Some (CHR 0x0A)
      else if e = CHR ''r'' then Some (CHR 0x0D)
      else if e = CHR ''t'' then Some (CHR 0x09)
      else None)"

definition unicode_escape :: "char \<Rightarrow> char \<Rightarrow> char \<Rightarrow> char \<Rightarrow> char option" where
  "unicode_escape a b c d =
     (case (hex_value a, hex_value b, hex_value c, hex_value d) of
        (Some x, Some y, Some z, Some w) \<Rightarrow>
          (let n = ((x * 16 + y) * 16 + z) * 16 + w in if n < 256 then Some (char_of n) else None)
      | _ \<Rightarrow> None)"

fun scan_string :: "string \<Rightarrow> (string \<times> string) option" where
  "scan_string [] = None"
| "scan_string (c # cs) =
     (if c = CHR ''\"'' then Some ([], cs)
      else if c = CHR 0x5C then
        (case cs of
           [] \<Rightarrow> None
         | e # es \<Rightarrow>
             if e = CHR ''u'' then
               (case es of
                  a # b # c' # d # rest \<Rightarrow>
                    (case unicode_escape a b c' d of
                       None \<Rightarrow> None
                     | Some u \<Rightarrow> map_option (\<lambda>(s, r). (u # s, r)) (scan_string rest))
                | _ \<Rightarrow> None)
             else
               (case unescape e of
                  None \<Rightarrow> None
                | Some u \<Rightarrow> map_option (\<lambda>(s, r). (u # s, r)) (scan_string es)))
      else if (of_char c :: nat) < 32 then None
      else map_option (\<lambda>(s, r). (c # s, r)) (scan_string cs))"

definition digits_value :: "string \<Rightarrow> nat" where
  "digits_value ds = foldl (\<lambda>a c. 10 * a + ((of_char c :: nat) - 48)) 0 ds"

definition scan_number :: "string \<Rightarrow> (json \<times> string) option" where
  "scan_number s =
     (let (neg, t) = (case s of c # cs \<Rightarrow> if c = CHR ''-'' then (True, cs) else (False, s) | [] \<Rightarrow> (False, s));
          ds = takeWhile is_digit t;
          r = dropWhile is_digit t
      in if ds = [] \<or> (hd ds = CHR ''0'' \<and> length ds > 1) then None
         else if r \<noteq> [] \<and> hd r \<in> {CHR ''.'', CHR ''e'', CHR ''E''} then None
         else Some (JInt (if neg then - int (digits_value ds) else int (digits_value ds)), r))"

fun strip_prefix :: "string \<Rightarrow> string \<Rightarrow> string option" where
  "strip_prefix [] s = Some s"
| "strip_prefix (p # ps) [] = None"
| "strip_prefix (p # ps) (c # cs) = (if p = c then strip_prefix ps cs else None)"

fun scan_value :: "nat \<Rightarrow> string \<Rightarrow> (json \<times> string) option"
  and scan_items :: "nat \<Rightarrow> string \<Rightarrow> (json list \<times> string) option"
  and scan_members :: "nat \<Rightarrow> string \<Rightarrow> ((string \<times> json) list \<times> string) option" where
  "scan_value 0 s = None"
| "scan_value (Suc n) s =
     (case s of
        [] \<Rightarrow> None
      | c # cs \<Rightarrow>
          if c = CHR ''\"'' then map_option (\<lambda>(x, r). (JStr x, r)) (scan_string cs)
          else if c = CHR ''{'' then
            (case skip_ws cs of
               [] \<Rightarrow> None
             | d # r \<Rightarrow>
                 if d = CHR ''}'' then Some (JObj [], r)
                 else map_option (\<lambda>(m, r'). (JObj m, r')) (scan_members n (d # r)))
          else if c = CHR ''['' then
            (case skip_ws cs of
               [] \<Rightarrow> None
             | d # r \<Rightarrow>
                 if d = CHR '']'' then Some (JArr [], r)
                 else map_option (\<lambda>(xs, r'). (JArr xs, r')) (scan_items n (d # r)))
          else if c = CHR ''n'' then map_option (Pair JNull) (strip_prefix ''ull'' cs)
          else if c = CHR ''t'' then map_option (Pair (JBool True)) (strip_prefix ''rue'' cs)
          else if c = CHR ''f'' then map_option (Pair (JBool False)) (strip_prefix ''alse'' cs)
          else scan_number s)"
| "scan_items 0 s = None"
| "scan_items (Suc n) s =
     (case scan_value n s of
        None \<Rightarrow> None
      | Some (v, r) \<Rightarrow>
          (case skip_ws r of
             [] \<Rightarrow> None
           | d # r' \<Rightarrow>
               if d = CHR '']'' then Some ([v], r')
               else if d = CHR '','' then
                 map_option (\<lambda>(xs, r''). (v # xs, r'')) (scan_items n (skip_ws r'))
               else None))"
| "scan_members 0 s = None"
| "scan_members (Suc n) s =
     (case s of
        [] \<Rightarrow> None
      | q # cs \<Rightarrow>
          if q \<noteq> CHR ''\"'' then None
          else
            (case scan_string cs of
               None \<Rightarrow> None
             | Some (k, r) \<Rightarrow>
                 (case skip_ws r of
                    [] \<Rightarrow> None
                  | col # r1 \<Rightarrow>
                      if col \<noteq> CHR '':'' then None
                      else
                        (case scan_value n (skip_ws r1) of
                           None \<Rightarrow> None
                         | Some (v, r2) \<Rightarrow>
                             (case skip_ws r2 of
                                [] \<Rightarrow> None
                              | d # r3 \<Rightarrow>
                                  if d = CHR ''}'' then Some ([(k, v)], r3)
                                  else if d = CHR '','' then
                                    map_option (\<lambda>(m, r4). ((k, v) # m, r4))
                                      (scan_members n (skip_ws r3))
                                  else None)))))"

definition json_loads :: "string \<Rightarrow> json option" where
  "json_loads s =
     (case scan_value (2 * length s + 2) (skip_ws s) of
        None \<Rightarrow> None
      | Some (v, r) \<Rightarrow> if skip_ws r = [] then Some v else None)"

text \<open>\<open>d.get(k)\<close>: the last member with the key, as in the dictionary built from the members.\<close>

definition dict_get :: "(string \<times> json) list \<Rightarrow> string \<Rightarrow> json option" where
  "dict_get kvs k = map_of (rev kvs) k"

text \<open>The truth value of a parsed value.\<close>

fun truthy :: "json \<Rightarrow> bool" where
  "truthy JNull = False"
| "truthy (JBool b) = b"
| "truthy (JInt i) = (i \<noteq> 0)"
| "truthy (JStr s) = (s \<noteq> [])"
| "truthy (JArr xs) = (xs \<noteq> [])"
| "truthy (JObj kvs) = (kvs \<noteq> [])"

text \<open>
  For the proofs about the parser: what may follow a number, the first character of
  a value, one printed member, and the fuel that suffices to read a printed value back.
\<close>

definition ok_rest :: "string \<Rightarrow> bool" where
  "ok_rest r = (case r of [] \<Rightarrow> True | c # _ \<Rightarrow> \<not> is_digit c \<and> c \<notin> {CHR ''.'', CHR ''e'', CHR ''E''})"

definition value_start :: "char \<Rightarrow> bool" where
  "value_start c = (\<not> is_ws c \<and> c \<noteq> CHR '']'' \<and> c \<noteq> CHR ''}'')"

definition encode_member :: "string \<times> json \<Rightarrow> string" where
  "encode_member kv = encode_string (fst kv) @ '': '' @ json_dumps (snd kv)"

fun weight :: "json \<Rightarrow> nat" where
  "weight (JArr xs) = Suc (sum_list (map (\<lambda>x. Suc (weight x)) xs))"
| "weight (JObj kvs) = Suc (sum_list (map (\<lambda>(k, v). Suc (weight v)) kvs))"
| "weight _ = 1"

section \<open>The spreadsheet backend\<close>

text \<open>
  A worksheet is its header row (row 1) and its data rows (rows 2, 3, ...), every cell a
  text; a cell beyond the end of a stored row is blank. Header cells are taken to be
  distinct, as \<open>get_all_records\<close> requires.
\<close>

record sheet =
  sheet_headers :: "string list"
  sheet_rows :: "string list list"

definition cell_at :: "string list \<Rightarrow> nat \<Rightarrow> string" where
  "cell_at r j = (if j < length r then r ! j else [])"

definition set_cell :: "string list \<Rightarrow> nat \<Rightarrow> string \<Rightarrow> string list" where
  "set_cell r j v = (if j < length r then r[j := v] else r @ replicate (j - length r) [] @ [v])"

definition set_row_cell :: "string list list \<Rightarrow> nat \<Rightarrow> nat \<Rightarrow> string \<Rightarrow> string list list" where
  "set_row_cell rs i j v =
     (if i < length rs then rs[i := set_cell (rs ! i) j v]
      else rs @ replicate (i - length rs) [] @ [set_cell [] j v])"

text \<open>\<open>sheet.row_values(1)\<close>\<close>

definition row_values1 :: "sheet \<Rightarrow> string list" where
  "row_values1 sh = sheet_headers sh"

text \<open>\<open>sheet.update_cell(r, c, v)\<close>, rows and columns counted from 1.\<close>

definition update_cell :: "sheet \<Rightarrow> nat \<Rightarrow> nat \<Rightarrow> string \<Rightarrow> sheet" where
  "update_cell sh r c v =
     (if r = 1 then sh\<lparr>sheet_headers := set_cell (sheet_headers sh) (c - 1) v\<rparr>
      else sh\<lparr>sheet_rows := set_row_cell (sheet_rows sh) (r - 2) (c - 1) v\<rparr>)"

text \<open>\<open>sheet.get_all_records()\<close>: one dictionary per data row, keyed by the header row.\<close>

definition get_all_records :: "sheet \<Rightarrow> (string \<times> string) list list" where
  "get_all_records sh =
     map (\<lambda>r. map (\<lambda>j. (sheet_headers sh ! j, cell_at r j)) [0..<length (sheet_headers sh)])
       (sheet_rows sh)"

text \<open>\<open>headers.index(name)\<close>\<close>

fun index_of :: "string \<Rightarrow> string list \<Rightarrow> nat option" where
  "index_of x [] = None"
| "index_of x (y # ys) = (if x = y then Some 0 else map_option Suc (index_of x ys))"

text \<open>
  The exceptions of the script, with the text \<open>str(e)\<close> of those that are printed.
\<close>

datatype error = KeyError | ValueError | JSONDecodeError | AttributeError string | Raised string

fun error_text :: "error \<Rightarrow> string" where
  "error_text (AttributeError t) = t"
| "error_text (Raised t) = t"
| "error_text _ = []"

definition ensure_column :: "sheet \<Rightarrow> string \<Rightarrow> error + (sheet \<times> nat)" where
  "ensure_column sh header_name =
     (let headers = row_values1 sh;
          sh' = (if header_name \<notin> set headers
                 then update_cell sh 1 (length headers + 1) header_name else sh);
          headers' = row_values1 sh'
      in case index_of header_name headers' of
           None \<Rightarrow> Inl ValueError
         | Some i \<Rightarrow> Inr (sh', i + 1))"

section \<open>The data frame\<close>

text \<open>
  A data frame is its column names and its rows, each row with its index label: the
  position of the record it was built from. Renaming columns and selecting rows keep
  the labels.
\<close>

record dataframe =
  df_columns :: "string list"
  df_rows :: "(nat \<times> string list) list"

definition DataFrame :: "(string \<times> string) list list \<Rightarrow> dataframe" where
  "DataFrame records =
     \<lparr>df_columns = (case records of [] \<Rightarrow> [] | r # _ \<Rightarrow> map fst r),
      df_rows = zip [0..<length records] (map (map snd) records)\<rparr>"

definition df_empty :: "dataframe \<Rightarrow> bool" where
  "df_empty df = (df_rows df = [] \<or> df_columns df = [])"

text \<open>\<open>row.get(name, "")\<close> on a row of a frame with the given columns.\<close>

definition row_get :: "string list \<Rightarrow> string list \<Rightarrow> string \<Rightarrow> string" where
  "row_get cols vals name = (case index_of name cols of None \<Rightarrow> [] | Some j \<Rightarrow> cell_at vals j)"

section \<open>Header normalization\<close>

definition aliases :: "(string \<times> string list) list" where
  "aliases =
     [(''Timestamp'', [''timestamp'', ''time'', ''date/time'', ''date'']),
      (''Name'', [''name'', ''full name'', ''your name'']),
      (''Email'', [''email'', ''e-mail'', ''mail'', ''your email'']),
      (''Symptoms'',
         [''symptoms'', ''message'', ''symptoms / message'', ''symptom details'',
          ''description'', ''issue'', ''problem'', ''notes'', ''details'', ''comments'',
          ''messages'', ''patient message'']),
      (''Urgency'', [''urgency'', ''priority'', ''severity'', ''how urgent''])]"

definition required_cols :: "string list" where
  "required_cols = [''Timestamp'', ''Name'', ''Email'', ''Symptoms'', ''Urgency'']"

text \<open>\<open>{c.lower().strip(): c for c in df.columns}\<close>: a later column replaces an earlier one.\<close>

definition lower_map :: "string list \<Rightarrow> (string \<rightharpoonup> string)" where
  "lower_map cols = fold (\<lambda>c m. m(strip (lower c) \<mapsto> c)) cols Map.empty"

text \<open>The inner loop over the variants of one canonical name, with its \<open>break\<close>.\<close>

fun find_src :: "(string \<rightharpoonup> string) \<Rightarrow> string list \<Rightarrow> string option" where
  "find_src lm [] = None"
| "find_src lm (v # vs) =
     (case lm (strip (lower v)) of
        Some src \<Rightarrow> if src \<noteq> [] then Some src else find_src lm vs
      | None \<Rightarrow> find_src lm vs)"

text \<open>The outer loop over \<open>aliases.items()\<close>, building \<open>renames\<close>.\<close>

fun build_renames ::
  "string list \<Rightarrow> (string \<rightharpoonup> string) \<Rightarrow> (string \<times> string list) list \<Rightarrow>
   (string \<rightharpoonup> string) \<Rightarrow> (string \<rightharpoonup> string)" where
  "build_renames cols lm [] renames = renames"
| "build_renames cols lm ((canonical, variants) # rest) renames =
     (if canonical \<in> set cols then build_renames cols lm rest renames
      else case find_src lm variants of
             Some found_src \<Rightarrow> build_renames cols lm rest (renames(found_src \<mapsto> canonical))
           | None \<Rightarrow> build_renames cols lm rest renames)"

definition renames_of :: "string list \<Rightarrow> (string \<rightharpoonup> string)" where
  "renames_of cols = build_renames cols (lower_map cols) aliases Map.empty"

text \<open>\<open>df.rename(columns=renames)\<close> on the column names.\<close>

definition rename_columns :: "(string \<rightharpoonup> string) \<Rightarrow> string list \<Rightarrow> string list" where
  "rename_columns renames cols = map (\<lambda>c. case renames c of Some c' \<Rightarrow> c' | None \<Rightarrow> c) cols"

definition normalized_columns :: "string list \<Rightarrow> string list" where
  "normalized_columns cols = rename_columns (renames_of cols) cols"

definition missing :: "string list \<Rightarrow> string list" where
  "missing cols = filter (\<lambda>c. c \<notin> set cols) required_cols"


text \<open>
  A header is a case and white space variant of a name when it is the name, in any
  mix of upper and lower case, between two runs of white space.
\<close>

definition variant_of :: "string \<Rightarrow> string \<Rightarrow> bool" where
  "variant_of h v =
     (\<exists>l m r. h = l @ m @ r \<and> (\<forall>c \<in> set l. is_space c) \<and> (\<forall>c \<in> set r. is_space c) \<and>
        lower m = lower v)"

section \<open>The ledger filter\<close>

text \<open>
  \<open>df[df.get("Processed", "") != "Yes"]\<close>: with no such column the comparison is the
  single truth value \<open>True\<close>, and selecting by it raises \<open>KeyError\<close>.
\<close>

definition new_rows_df :: "dataframe \<Rightarrow> error + dataframe" where
  "new_rows_df df =
     (if ''Processed'' \<in> set (df_columns df)
      then Inr (df\<lparr>df_rows :=
             filter (\<lambda>(idx, vals). row_get (df_columns df) vals ''Processed'' \<noteq> ''Yes'')
               (df_rows df)\<rparr>)
      else Inl KeyError)"

text \<open>
  The processed mark of the processing loop, on its own, for every row of a selection:
  \<open>sheet.update_cell(idx + 2, processed_col_idx, "Yes")\<close>.
\<close>

definition mark_rows :: "nat \<Rightarrow> (nat \<times> string list) list \<Rightarrow> sheet \<Rightarrow> sheet" where
  "mark_rows col L sh = fold (\<lambda>(idx, vals) s. update_cell s (idx + 2) col ''Yes'') L sh"

definition ledger_example :: sheet where
  "ledger_example =
     \<lparr>sheet_headers = [''Name'', ''Processed''],
      sheet_rows = [[''Jo'', ''Yes''], [''Al'', ''yes''], [''Bo''], [''Cy'', '' Yes'']]\<rparr>"


section \<open>Configuration and the outside world\<close>

text \<open>
  What the script reads from outside: the environment variables, and the outcome of
  every call to a service, \<open>None\<close> for a call that returns and \<open>Some e\<close> for one that
  raises an exception with the text \<open>e\<close>. The calls made for a row are keyed by the
  row's index label.
\<close>

datatype api_response = ApiRaises string | ApiReturns "string option"

record env =
  environ :: "string \<rightharpoonup> string"
  smtp_465 :: "string option"
  smtp_587 :: "string option"
  slack_import :: "string option"
  openai_import :: "string option"
  chat_completions_create :: "string \<Rightarrow> string \<Rightarrow> api_response"
  yag_send :: "nat \<Rightarrow> string option"
  chat_postMessage :: "nat \<Rightarrow> string option"
  update_cell_raises :: "nat \<Rightarrow> string option"
  append_row_raises :: "nat \<Rightarrow> string option"

definition getenv :: "env \<Rightarrow> string \<Rightarrow> string \<Rightarrow> string" where
  "getenv e k d = (case environ e k of None \<Rightarrow> d | Some v \<Rightarrow> v)"

definition OPENAI_API_KEY :: "env \<Rightarrow> string" where
  "OPENAI_API_KEY e = strip (getenv e ''OPENAI_API_KEY'' [])"

definition EMAIL_USER :: "env \<Rightarrow> string" where
  "EMAIL_USER e = strip (getenv e ''EMAIL_USER'' [])"

definition EMAIL_PASS :: "env \<Rightarrow> string" where
  "EMAIL_PASS e = strip (getenv e ''EMAIL_PASS'' [])"

definition PROCESSED_SHEET :: "env \<Rightarrow> string" where
  "PROCESSED_SHEET e = strip (getenv e ''PROCESSED_SHEET'' ''Processed'')"

definition SLACK_BOT_TOKEN :: "env \<Rightarrow> string" where
  "SLACK_BOT_TOKEN e = strip (getenv e ''SLACK_BOT_TOKEN'' [])"

definition SLACK_CHANNEL_ID :: "env \<Rightarrow> string" where
  "SLACK_CHANNEL_ID e = strip (getenv e ''SLACK_CHANNEL_ID'' [])"

text \<open>What the script prints, one constructor for each \<open>print\<close> with the values it shows.\<close>

datatype message =
    SheetEmpty
  | ColumnsPresent "string list"
  | MissingRequired "string list"
  | NoNewInquiries
  | SSL465Failed string
  | EmailLoginFailed string
  | SlackSdkFailed string
  | OpenAIInitFailed string
  | EmailSent string
  | EmailSendFailed string string
  | EmailSkipped string
  | SlackSendFailed string
  | MarkFailed nat string
  | AppendFailed string string
  | AllProcessed nat
  | Traceback error

text \<open>The calls that reach a service, in the order they are made, whatever their outcome.\<close>

datatype action =
    AddWorksheet string "string list"
  | SendEmail string string string
  | PostMessage string string
  | UpdateCell nat nat string
  | AppendRow "string list"

section \<open>The summarizer\<close>

definition use_openai :: "env \<Rightarrow> bool" where
  "use_openai e = (OPENAI_API_KEY e \<noteq> [] \<and> openai_import e = None)"

definition try_except :: "error + 'a \<Rightarrow> (error \<Rightarrow> error + 'a) \<Rightarrow> error + 'a" where
  "try_except body handler = (case body of Inl e \<Rightarrow> handler e | Inr x \<Rightarrow> Inr x)"

text \<open>\<open>resp.choices[0].message.content.strip()\<close>\<close>

definition response_content :: "api_response \<Rightarrow> error + string" where
  "response_content resp =
     (case resp of
        ApiRaises e \<Rightarrow> Inl (Raised e)
      | ApiReturns None \<Rightarrow> Inl (AttributeError ''NoneType object has no attribute strip'')
      | ApiReturns (Some c) \<Rightarrow> Inr (strip c))"

text \<open>\<open>parsed.get("summary", "").strip()\<close>\<close>

definition parsed_summary :: "json \<Rightarrow> error + string" where
  "parsed_summary parsed =
     (case parsed of
        JObj kvs \<Rightarrow>
          (case dict_get kvs ''summary'' of
             None \<Rightarrow> Inr (strip [])
           | Some (JStr s) \<Rightarrow> Inr (strip s)
           | Some _ \<Rightarrow> Inl (AttributeError ''strip''))
      | _ \<Rightarrow> Inl (AttributeError ''get''))"

text \<open>\<open>(parsed.get("urgency") or urgency or "Unknown").strip()\<close>\<close>

definition parsed_urgency :: "json \<Rightarrow> string \<Rightarrow> error + string" where
  "parsed_urgency parsed urgency =
     (case parsed of
        JObj kvs \<Rightarrow>
          (case dict_get kvs ''urgency'' of
             None \<Rightarrow> Inr (strip (str_or urgency ''Unknown''))
           | Some v \<Rightarrow>
               if truthy v then
                 (case v of JStr s \<Rightarrow> Inr (strip s) | _ \<Rightarrow> Inl (AttributeError ''strip''))
               else Inr (strip (str_or urgency ''Unknown'')))
      | _ \<Rightarrow> Inl (AttributeError ''get''))"

text \<open>\<open>parsed.get("keywords", [])\<close>\<close>

definition parsed_keywords :: "json \<Rightarrow> error + json" where
  "parsed_keywords parsed =
     (case parsed of
        JObj kvs \<Rightarrow> Inr (case dict_get kvs ''keywords'' of None \<Rightarrow> JArr [] | Some v \<Rightarrow> v)
      | _ \<Rightarrow> Inl (AttributeError ''get''))"

text \<open>The dictionary of the three keys that every branch passes to \<open>json.dumps\<close>.\<close>

definition summary_record :: "string \<Rightarrow> string \<Rightarrow> json \<Rightarrow> json" where
  "summary_record summary urgency keywords =
     JObj [(''summary'', JStr summary), (''urgency'', JStr urgency), (''keywords'', keywords)]"

text \<open>The body of the inner \<open>try\<close>: parse the response and build the record from it.\<close>

definition parse_structured :: "string \<Rightarrow> string \<Rightarrow> error + string" where
  "parse_structured content urgency =
     (case json_loads content of
        None \<Rightarrow> Inl JSONDecodeError
      | Some parsed \<Rightarrow>
          (case parsed_summary parsed of
             Inl e \<Rightarrow> Inl e
           | Inr s \<Rightarrow>
               (case parsed_urgency parsed urgency of
                  Inl e \<Rightarrow> Inl e
                | Inr u \<Rightarrow>
                    (case parsed_keywords parsed of
                       Inl e \<Rightarrow> Inl e
                     | Inr k \<Rightarrow> Inr (json_dumps (summary_record s u k))))))"

definition ai_summarize :: "env \<Rightarrow> string \<Rightarrow> string \<Rightarrow> error + string" where
  "ai_summarize e symptoms urgency =
     (if \<not> use_openai e then
        (let trunc = replace_char (CHR 0x0A) '' '' (take 200 (str_or symptoms [])) in
         Inr (json_dumps
                (summary_record (''Reported symptoms: '' @ trunc @ ''...'')
                   (str_or urgency ''Unknown'') (JArr []))))
      else
        try_except
          (case response_content (chat_completions_create e symptoms urgency) of
             Inl x \<Rightarrow> Inl x
           | Inr content \<Rightarrow>
               try_except (parse_structured content urgency)
                 (\<lambda>_. Inr (json_dumps
                              (summary_record (take 600 content) (str_or urgency ''Unknown'')
                                 (JArr [])))))
          (\<lambda>x. Inr (json_dumps
                       (summary_record (''(OpenAI error: '' @ error_text x @ '')'')
                          (str_or urgency ''Unknown'') (JArr [])))))"

section \<open>The processing loop\<close>

record loop_state =
  ls_sheet :: sheet
  ls_archive :: "string list list"
  ls_printed :: "message list"
  ls_actions :: "action list"
  updates_made :: nat

text \<open>The em dash of the subject line, as its three bytes in UTF-8.\<close>

definition em_dash :: string where
  "em_dash = [CHR 0xE2, CHR 0x80, CHR 0x94]"

definition email_subject :: "string \<Rightarrow> string \<Rightarrow> string" where
  "email_subject urgency name =
     ''New Patient Inquiry '' @ em_dash @ '' '' @ str_or urgency ''Unknown'' @ '' '' @ em_dash @
     '' '' @ str_or name ''Unknown''"

definition email_body :: "string \<Rightarrow> string \<Rightarrow> string \<Rightarrow> string \<Rightarrow> string \<Rightarrow> string \<Rightarrow> string" where
  "email_body name email urgency ai_json timestamp symptoms =
     [CHR 0x0A] @ ''    <h3>New Patient Inquiry</h3>'' @ [CHR 0x0A] @
     ''    <b>Name:</b> '' @ str_or name ''-'' @ ''<br>'' @ [CHR 0x0A] @
     ''    <b>Email:</b> '' @ str_or email ''-'' @ ''<br>'' @ [CHR 0x0A] @
     ''    <b>Reported Urgency:</b> '' @ str_or urgency ''-'' @ ''<br><br>'' @ [CHR 0x0A] @
     ''    <b>AI Summary (JSON):</b><br><pre style='' @ [CHR 0x22] @ ''white-space:pre-wrap;'' @
       [CHR 0x22] @ ''>'' @ ai_json @ ''</pre>'' @ [CHR 0x0A] @
     ''    <hr>'' @ [CHR 0x0A] @
     ''    <small>Timestamp: '' @ str_or timestamp ''-'' @ ''</small><br>'' @ [CHR 0x0A] @
     ''    <small>Raw Symptoms: '' @
       replace_char CHR ''>'' ''&gt;'' (replace_char CHR ''<'' ''&lt;'' (str_or symptoms ''-'')) @
       ''</small>'' @ [CHR 0x0A] @ ''    ''"

definition slack_text :: "string \<Rightarrow> string \<Rightarrow> string \<Rightarrow> string \<Rightarrow> string \<Rightarrow> string" where
  "slack_text subject timestamp name email ai_json =
     ''*'' @ subject @ ''*'' @ [CHR 0x0A] @ timestamp @ [CHR 0x0A] @ name @ '' <'' @ email @ ''>'' @
     [CHR 0x0A] @ ''```'' @ ai_json @ ''```''"

text \<open>The e-mail step of one row; \<open>yag\<close> tells whether the SMTP login succeeded.\<close>

definition send_email ::
  "env \<Rightarrow> bool \<Rightarrow> nat \<Rightarrow> string \<Rightarrow> string \<Rightarrow> string \<Rightarrow> loop_state \<Rightarrow> loop_state" where
  "send_email e yag idx name subject body st =
     (if yag then
        (case yag_send e idx of
           None \<Rightarrow>
             st\<lparr>ls_actions := ls_actions st @ [SendEmail (EMAIL_USER e) subject body],
                ls_printed := ls_printed st @ [EmailSent (str_or name ''(no name)'')]\<rparr>
         | Some x \<Rightarrow>
             st\<lparr>ls_actions := ls_actions st @ [SendEmail (EMAIL_USER e) subject body],
                ls_printed := ls_printed st @ [EmailSendFailed (str_or name ''(no name)'') x]\<rparr>)
      else st\<lparr>ls_printed := ls_printed st @ [EmailSkipped (str_or name ''(no name)'')]\<rparr>)"

text \<open>\<open>slack_notify\<close>; \<open>slack\<close> tells whether the client was created.\<close>

definition slack_notify :: "env \<Rightarrow> bool \<Rightarrow> nat \<Rightarrow> string \<Rightarrow> loop_state \<Rightarrow> loop_state" where
  "slack_notify e slack idx text st =
     (if \<not> slack then st
      else
        (case chat_postMessage e idx of
           None \<Rightarrow> st\<lparr>ls_actions := ls_actions st @ [PostMessage (SLACK_CHANNEL_ID e) text]\<rparr>
         | Some x \<Rightarrow>
             st\<lparr>ls_actions := ls_actions st @ [PostMessage (SLACK_CHANNEL_ID e) text],
                ls_printed := ls_printed st @ [SlackSendFailed x]\<rparr>))"

text \<open>The processed mark of one row.\<close>

definition mark_processed :: "env \<Rightarrow> nat \<Rightarrow> nat \<Rightarrow> loop_state \<Rightarrow> loop_state" where
  "mark_processed e processed_col_idx idx st =
     (case update_cell_raises e idx of
        None \<Rightarrow>
          st\<lparr>ls_actions := ls_actions st @ [UpdateCell (idx + 2) processed_col_idx ''Yes''],
             ls_sheet := update_cell (ls_sheet st) (idx + 2) processed_col_idx ''Yes''\<rparr>
      | Some x \<Rightarrow>
          st\<lparr>ls_actions := ls_actions st @ [UpdateCell (idx + 2) processed_col_idx ''Yes''],
             ls_printed := ls_printed st @ [MarkFailed (idx + 2) x]\<rparr>)"

text \<open>
  The cell written for a parsed value: a text as it is, any other value as its JSON
  text.
\<close>

definition cell_of_json :: "json \<Rightarrow> string" where
  "cell_of_json v = (case v of JStr s \<Rightarrow> s | _ \<Rightarrow> json_dumps v)"

text \<open>
  The body of the \<open>try\<close> that reads the summary back: \<open>json.loads(ai_json)\<close>, then the
  two \<open>get\<close>.
\<close>

definition reparse :: "string \<Rightarrow> string \<Rightarrow> error + (string \<times> string)" where
  "reparse ai_json urgency =
     (case json_loads ai_json of
        None \<Rightarrow> Inl JSONDecodeError
      | Some (JObj kvs) \<Rightarrow>
          Inr (case dict_get kvs ''summary'' of None \<Rightarrow> [] | Some v \<Rightarrow> cell_of_json v,
               case dict_get kvs ''urgency'' of
                 None \<Rightarrow> str_or urgency ''Unknown''
               | Some v \<Rightarrow> cell_of_json v)
      | Some _ \<Rightarrow> Inl (AttributeError ''get''))"

definition summary_for_archive :: "string \<Rightarrow> string \<Rightarrow> string \<times> string" where
  "summary_for_archive ai_json urgency =
     (case reparse ai_json urgency of
        Inr p \<Rightarrow> p
      | Inl _ \<Rightarrow> (ai_json, str_or urgency ''Unknown''))"

text \<open>The append to the archive sheet.\<close>

definition append_archive :: "env \<Rightarrow> nat \<Rightarrow> string list \<Rightarrow> loop_state \<Rightarrow> loop_state" where
  "append_archive e idx cells st =
     (case append_row_raises e idx of
        None \<Rightarrow>
          st\<lparr>ls_actions := ls_actions st @ [AppendRow cells],
             ls_archive := ls_archive st @ [cells]\<rparr>
      | Some x \<Rightarrow>
          st\<lparr>ls_actions := ls_actions st @ [AppendRow cells],
             ls_printed := ls_printed st @ [AppendFailed (PROCESSED_SHEET e) x]\<rparr>)"

text \<open>One pass of the loop body, for the row \<open>vals\<close> with index label \<open>idx\<close>.\<close>

definition process_row ::
  "env \<Rightarrow> bool \<Rightarrow> bool \<Rightarrow> string list \<Rightarrow> nat \<Rightarrow> nat \<times> string list \<Rightarrow> loop_state \<Rightarrow>
   error + loop_state" where
  "process_row e yag slack cols processed_col_idx r st =
     (let idx = fst r; vals = snd r;
          name = strip (row_get cols vals ''Name'');
          email = strip (row_get cols vals ''Email'');
          symptoms = strip (row_get cols vals ''Symptoms'');
          urgency = strip (row_get cols vals ''Urgency'');
          timestamp = strip (row_get cols vals ''Timestamp'')
      in case ai_summarize e symptoms urgency of
           Inl x \<Rightarrow> Inl x
         | Inr ai_json \<Rightarrow>
             (let subject = email_subject urgency name;
                  body = email_body name email urgency ai_json timestamp symptoms;
                  st1 = send_email e yag idx name subject body st;
                  st2 = slack_notify e slack idx (slack_text subject timestamp name email ai_json) st1;
                  st3 = mark_processed e processed_col_idx idx st2;
                  (summary_text, urgency_final) = summary_for_archive ai_json urgency;
                  st4 = append_archive e idx
                          [timestamp, name, email, summary_text, urgency_final, ''Processed''] st3
              in Inr (st4\<lparr>updates_made := updates_made st4 + 1\<rparr>)))"

fun process_rows ::
  "env \<Rightarrow> bool \<Rightarrow> bool \<Rightarrow> string list \<Rightarrow> nat \<Rightarrow> (nat \<times> string list) list \<Rightarrow> loop_state \<Rightarrow>
   error + loop_state" where
  "process_rows e yag slack cols processed_col_idx [] st = Inr st"
| "process_rows e yag slack cols processed_col_idx (r # rs) st =
     (case process_row e yag slack cols processed_col_idx r st of
        Inl x \<Rightarrow> Inl x
      | Inr st' \<Rightarrow> process_rows e yag slack cols processed_col_idx rs st')"

section \<open>The run\<close>

text \<open>
  The workbook, once opened: the first sheet, and the archive sheet when the workbook
  has one (the rows of the archive sheet, its header first).
\<close>

record workbook =
  sheet1 :: sheet
  processed_ws :: "string list list option"

record result =
  exit_code :: nat
  printed :: "message list"
  actions :: "action list"
  final :: workbook

definition archive_header :: "string list" where
  "archive_header = [''Timestamp'', ''Name'', ''Email'', ''Summary'', ''Urgency'', ''Status'']"

text \<open>The e-mail login: port 465 first, then port 587.\<close>

definition email_setup :: "env \<Rightarrow> bool \<times> message list" where
  "email_setup e =
     (if EMAIL_USER e \<noteq> [] \<and> EMAIL_PASS e \<noteq> [] then
        (case smtp_465 e of
           None \<Rightarrow> (True, [])
         | Some e1 \<Rightarrow>
             (case smtp_587 e of
                None \<Rightarrow> (True, [SSL465Failed e1])
              | Some e2 \<Rightarrow> (False, [SSL465Failed e1, EmailLoginFailed e2])))
      else (False, []))"

definition slack_setup :: "env \<Rightarrow> bool \<times> message list" where
  "slack_setup e =
     (if SLACK_BOT_TOKEN e \<noteq> [] \<and> SLACK_CHANNEL_ID e \<noteq> [] then
        (case slack_import e of None \<Rightarrow> (True, []) | Some x \<Rightarrow> (False, [SlackSdkFailed x]))
      else (False, []))"

definition openai_setup :: "env \<Rightarrow> message list" where
  "openai_setup e =
     (if OPENAI_API_KEY e \<noteq> [] then
        (case openai_import e of None \<Rightarrow> [] | Some x \<Rightarrow> [OpenAIInitFailed x])
      else [])"

text \<open>
  Section 3 of the script up to the frame that is normalized: read the records,
  create the \<open>Processed\<close> column when the frame has none and read again.
\<close>

definition load_frame :: "sheet \<Rightarrow> error + (sheet \<times> dataframe)" where
  "load_frame sh =
     (let df = DataFrame (get_all_records sh) in
      if ''Processed'' \<notin> set (df_columns df) then
        (case ensure_column sh ''Processed'' of
           Inl x \<Rightarrow> Inl x
         | Inr (sh', _) \<Rightarrow> Inr (sh', DataFrame (get_all_records sh')))
      else Inr (sh, df))"

definition finish ::
  "nat \<Rightarrow> message list \<Rightarrow> action list \<Rightarrow> sheet \<Rightarrow> string list list \<Rightarrow> result" where
  "finish code msgs acts sh arch =
     \<lparr>exit_code = code, printed = msgs, actions = acts,
      final = \<lparr>sheet1 = sh, processed_ws = Some arch\<rparr>\<rparr>"

text \<open>
  Sections 4 to 7 of the script: the setup of the channels and of the summarizer, then
  the loop over the unprocessed rows and the final report. An exception that nothing
  catches ends the run with its traceback and exit status 1.
\<close>

definition process_new ::
  "env \<Rightarrow> action list \<Rightarrow> string list list \<Rightarrow> sheet \<Rightarrow> string list \<Rightarrow>
   (nat \<times> string list) list \<Rightarrow> result" where
  "process_new e acts arch sh1 cols new_rows =
     (let (yag, msgs1) = email_setup e;
          (slack, msgs2) = slack_setup e;
          msgs3 = openai_setup e
      in case ensure_column sh1 ''Processed'' of
           Inl x \<Rightarrow> finish 1 (msgs1 @ msgs2 @ msgs3 @ [Traceback x]) acts sh1 arch
         | Inr (sh2, processed_col_idx) \<Rightarrow>
             (case process_rows e yag slack cols processed_col_idx new_rows
                     \<lparr>ls_sheet = sh2, ls_archive = arch, ls_printed = msgs1 @ msgs2 @ msgs3,
                      ls_actions = acts, updates_made = 0\<rparr> of
                Inl x \<Rightarrow> finish 1 (msgs1 @ msgs2 @ msgs3 @ [Traceback x]) acts sh2 arch
              | Inr st \<Rightarrow>
                  finish 0 (ls_printed st @ [AllProcessed (updates_made st)])
                    (ls_actions st) (ls_sheet st) (ls_archive st)))"

text \<open>
  The script from the opened workbook on: the archive sheet is created when the
  workbook has none, then the first sheet is read, normalized and filtered.
\<close>

definition run :: "env \<Rightarrow> workbook \<Rightarrow> result" where
  "run e wb =
     (let arch = (case processed_ws wb of Some rows \<Rightarrow> rows | None \<Rightarrow> [archive_header]);
          acts = (case processed_ws wb of
                    Some rows \<Rightarrow> []
                  | None \<Rightarrow> [AddWorksheet (PROCESSED_SHEET e) archive_header]);
          sh = sheet1 wb
      in if df_empty (DataFrame (get_all_records sh)) then finish 0 [SheetEmpty] acts sh arch
         else
           (case load_frame sh of
              Inl x \<Rightarrow> finish 1 [Traceback x] acts sh arch
            | Inr (sh1, df) \<Rightarrow>
                (let cols = normalized_columns (df_columns df) in
                 if missing cols \<noteq> [] then
                   finish 1 [ColumnsPresent cols, MissingRequired (missing cols)] acts sh1 arch
                 else
                   (case new_rows_df (df\<lparr>df_columns := cols\<rparr>) of
                      Inl x \<Rightarrow> finish 1 [Traceback x] acts sh1 arch
                    | Inr new \<Rightarrow>
                        if df_empty new then finish 0 [NoNewInquiries] acts sh1 arch
                        else process_new e acts arch sh1 cols (df_rows new)))))"

text \<open>
  An environment with nothing configured and no failing call, and the workbook of the
  end-to-end scenario: one unprocessed row.
\<close>

definition quiet_env :: env where
  "quiet_env =
     \<lparr>environ = Map.empty, smtp_465 = None, smtp_587 = None, slack_import = None,
      openai_import = None, chat_completions_create = (\<lambda>_ _. ApiReturns None),
      yag_send = (\<lambda>_. None), chat_postMessage = (\<lambda>_. None),
      update_cell_raises = (\<lambda>_. None), append_row_raises = (\<lambda>_. None)\<rparr>"

definition scenario_book :: workbook where
  "scenario_book =
     \<lparr>sheet1 =
        \<lparr>sheet_headers = [''Timestamp'', ''Name'', ''Email'', ''Symptoms'', ''Urgency'', ''Processed''],
         sheet_rows = [[''T1'', ''Jo'', ''jo@x.com'', ''fever for 3 days'', ''High'', []]]\<rparr>,
      processed_ws = Some [archive_header]\<rparr>"


section \<open>Definitions for the properties of the run\<close>


text \<open>The calls that write to a sheet, those of the e-mail channel and those of the chat channel.\<close>

fun is_sheet_action :: "action \<Rightarrow> bool" where
  "is_sheet_action (AddWorksheet n h) = True"
| "is_sheet_action (UpdateCell r c v) = True"
| "is_sheet_action (AppendRow cs) = True"
| "is_sheet_action _ = False"

fun is_email_action :: "action \<Rightarrow> bool" where
  "is_email_action (SendEmail t s b) = True"
| "is_email_action _ = False"

fun is_slack_action :: "action \<Rightarrow> bool" where
  "is_slack_action (PostMessage c t) = True"
| "is_slack_action _ = False"











text \<open>
  The archive sheet and the calls made before the first sheet is read: the archive
  sheet is created with its header when the workbook has none.
\<close>

definition first_archive :: "workbook \<Rightarrow> string list list" where
  "first_archive wb = (case processed_ws wb of Some rows \<Rightarrow> rows | None \<Rightarrow> [archive_header])"

definition first_actions :: "env \<Rightarrow> workbook \<Rightarrow> action list" where
  "first_actions e wb =
     (case processed_ws wb of
        Some rows \<Rightarrow> []
      | None \<Rightarrow> [AddWorksheet (PROCESSED_SHEET e) archive_header])"


text \<open>
  A canonical field is unresolved by a header row when no header has its name and no
  header is a variant of one of its synonyms.
\<close>

definition unresolved :: "string list \<Rightarrow> string \<Rightarrow> bool" where
  "unresolved headers c =
     (c \<notin> set headers \<and>
      \<not> (\<exists>vs h v. (c, vs) \<in> set aliases \<and> h \<in> set headers \<and> v \<in> set vs \<and> variant_of h v))"

text \<open>
  Workbooks for the examples: no data row and no archive sheet; no data row and an
  archive sheet with one entry; headers that leave \<open>Timestamp\<close> and \<open>Urgency\<close>
  unresolved.
\<close>

definition empty_book :: workbook where
  "empty_book =
     \<lparr>sheet1 =
        \<lparr>sheet_headers = [''Timestamp'', ''Name'', ''Email'', ''Symptoms'', ''Urgency''],
         sheet_rows = []\<rparr>,
      processed_ws = None\<rparr>"

definition archived_book :: workbook where
  "archived_book =
     \<lparr>sheet1 =
        \<lparr>sheet_headers = [''Timestamp'', ''Name'', ''Email'', ''Symptoms'', ''Urgency''],
         sheet_rows = []\<rparr>,
      processed_ws =
        Some [archive_header, [''T0'', ''Al'', ''al@x.com'', ''cough'', ''Low'', ''Processed'']]\<rparr>"











section \<open>The JSON library reads back what it prints\<close>

subsection \<open>Text\<close>

lemma hex_value_hex_digit: "n < 16 \<Longrightarrow> hex_value (hex_digit n) = Some n"
  by (auto simp: hex_value_def hex_digit_def Let_def)

lemma hex_value_0: "hex_value CHR ''0'' = Some 0"
  by (simp add: hex_value_def)

lemma unicode_escape_low:
  assumes "(of_char c :: nat) < 32"
  shows "unicode_escape CHR ''0'' CHR ''0'' (hex_digit ((of_char c :: nat) div 16))
           (hex_digit ((of_char c :: nat) mod 16)) = Some c"
proof -
  let ?n = "of_char c :: nat"
  have a: "hex_value (hex_digit (?n div 16)) = Some (?n div 16)"
    using assms by (intro hex_value_hex_digit) simp
  have b: "hex_value (hex_digit (?n mod 16)) = Some (?n mod 16)"
    by (intro hex_value_hex_digit) simp
  have "?n < 256" using assms by simp
  then show ?thesis
    by (simp add: unicode_escape_def a b hex_value_0 Let_def)
qed

lemma scan_string_escape:
  "scan_string (escape_char c @ s) = map_option (\<lambda>(x, r). (c # x, r)) (scan_string s)"
proof -
  consider "c = CHR ''\"''" | "c = CHR 0x5C" | "c = CHR 0x0A" | "c = CHR 0x0D" | "c = CHR 0x09"
    | "c = CHR 0x08" | "c = CHR 0x0C"
    | "c \<notin> {CHR ''\"'', CHR 0x5C, CHR 0x0A, CHR 0x0D, CHR 0x09, CHR 0x08, CHR 0x0C}"
      "(of_char c :: nat) < 32"
    | "c \<notin> {CHR ''\"'', CHR 0x5C, CHR 0x0A, CHR 0x0D, CHR 0x09, CHR 0x08, CHR 0x0C}"
      "\<not> (of_char c :: nat) < 32"
    by blast
  then show ?thesis
  proof cases
    case 8
    then show ?thesis
      using unicode_escape_low[of c] by (simp add: escape_char_def)
  next
    case 9
    then show ?thesis by (simp add: escape_char_def)
  qed (simp_all add: escape_char_def unescape_def)
qed

lemma scan_string_encode:
  "scan_string (concat (map escape_char s) @ CHR ''\"'' # r) = Some (s, r)"
  by (induction s) (simp_all add: scan_string_escape)

subsection \<open>Numbers\<close>

lemma is_digit_char: "(n :: nat) < 10 \<Longrightarrow> is_digit (char_of (48 + n))"
  by (simp add: is_digit_def)

lemma digits_all: "\<forall>c \<in> set (digits n). is_digit c"
proof (induction n rule: digits.induct)
  case (1 n)
  show ?case
  proof (cases "n < 10")
    case True
    then show ?thesis by (subst digits.simps) (simp add: is_digit_char)
  next
    case False
    have "n mod 10 < 10" by simp
    then have "is_digit (char_of (48 + n mod 10))" by (rule is_digit_char)
    with 1 False show ?thesis by (subst digits.simps) auto
  qed
qed

lemma digits_nonempty: "digits n \<noteq> []"
  by (subst digits.simps) simp

lemma digits_value_snoc:
  "digits_value (ds @ [c]) = 10 * digits_value ds + ((of_char c :: nat) - 48)"
  by (simp add: digits_value_def)

lemma digits_value_digits: "digits_value (digits n) = n"
proof (induction n rule: digits.induct)
  case (1 n)
  show ?case
  proof (cases "n < 10")
    case True
    then show ?thesis by (subst digits.simps) (simp add: digits_value_def)
  next
    case False
    have "digits n = digits (n div 10) @ [char_of (48 + n mod 10)]"
      using False by (subst digits.simps) simp
    then show ?thesis using 1 False by (simp add: digits_value_snoc)
  qed
qed

lemma digits_hd_zero: "hd (digits n) = CHR ''0'' \<Longrightarrow> length (digits n) = 1"
proof (induction n rule: digits.induct)
  case (1 n)
  show ?case
  proof (cases "n < 10")
    case True
    then show ?thesis by (subst digits.simps) simp
  next
    case False
    then have d: "digits n = digits (n div 10) @ [char_of (48 + n mod 10)]"
      by (subst digits.simps) simp
    with "1.prems" digits_nonempty[of "n div 10"] have h: "hd (digits (n div 10)) = CHR ''0''"
      by simp
    from "1.IH"[OF False h] have l: "length (digits (n div 10)) = 1" .
    have "digits_value (digits (n div 10)) = 0"
    proof -
      from l h obtain c where "digits (n div 10) = [c]" "c = CHR ''0''"
        by (cases "digits (n div 10)") auto
      then show ?thesis by (simp add: digits_value_def)
    qed
    then have "n div 10 = 0" by (simp add: digits_value_digits)
    with False show ?thesis by simp
  qed
qed

lemma takeWhile_digits:
  assumes "ok_rest r"
  shows "takeWhile is_digit (digits n @ r) = digits n" "dropWhile is_digit (digits n @ r) = r"
proof -
  have r: "takeWhile is_digit r = []" "dropWhile is_digit r = r"
    using assms by (cases r; simp add: ok_rest_def)+
  show "takeWhile is_digit (digits n @ r) = digits n"
    using digits_all[of n] r by (simp add: takeWhile_append2)
  show "dropWhile is_digit (digits n @ r) = r"
    using digits_all[of n] r by (simp add: dropWhile_append2)
qed

lemma digits_not_minus: "digits n = c # cs \<Longrightarrow> c \<noteq> CHR ''-''"
  using digits_all[of n] by (auto simp: is_digit_def)

lemma scan_number_encode:
  assumes "ok_rest r"
  shows "scan_number (encode_int i @ r) = Some (JInt i, r)"
proof -
  have okr: "\<not> (r \<noteq> [] \<and> hd r \<in> {CHR ''.'', CHR ''e'', CHR ''E''})"
    using assms by (cases r) (auto simp: ok_rest_def)
  have z: "\<And>n. \<not> (hd (digits n) = CHR ''0'' \<and> length (digits n) > 1)"
    using digits_hd_zero by fastforce
  show ?thesis
  proof (cases "i < 0")
    case True
    then show ?thesis
      using okr z[of "nat (- i)"] takeWhile_digits[OF assms, of "nat (- i)"]
      by (simp add: scan_number_def encode_int_def digits_nonempty digits_value_digits Let_def)
  next
    case False
    obtain c cs where d: "digits (nat i) = c # cs"
      using digits_nonempty[of "nat i"] by (cases "digits (nat i)") auto
    have c: "c \<noteq> CHR ''-''" using digits_not_minus[OF d] .
    have "scan_number ((c # cs) @ r) = Some (JInt i, r)"
      using False okr z[of "nat i"] takeWhile_digits[OF assms, of "nat i"] c
        digits_nonempty[of "nat i"] digits_value_digits[of "nat i"]
      unfolding d by (simp add: scan_number_def Let_def)
    then show ?thesis using False by (simp add: encode_int_def d)
  qed
qed

subsection \<open>Values\<close>

lemma weight_pos: "0 < weight j"
  by (cases j) simp_all

lemma skip_ws_start: "value_start c \<Longrightarrow> skip_ws (c # s) = c # s"
  by (simp add: skip_ws_def value_start_def)

lemma skip_ws_space: "skip_ws (CHR '' '' # s) = skip_ws s"
  by (simp add: skip_ws_def is_ws_def)

lemma skip_ws_delim:
  "skip_ws (CHR '','' # s) = CHR '','' # s" "skip_ws (CHR '']'' # s) = CHR '']'' # s"
  "skip_ws (CHR ''}'' # s) = CHR ''}'' # s" "skip_ws (CHR '':'' # s) = CHR '':'' # s"
  by (simp_all add: skip_ws_def is_ws_def)

lemma ok_rest_delim:
  "ok_rest (CHR '','' # s)" "ok_rest (CHR '']'' # s)" "ok_rest (CHR ''}'' # s)"
  by (simp_all add: ok_rest_def is_digit_def)

lemma is_digit_start: "is_digit c \<Longrightarrow> value_start c"
  by (auto simp: is_digit_def value_start_def is_ws_def)

lemma is_digit_other:
  "is_digit c \<Longrightarrow> c \<notin> {CHR ''\"'', CHR ''{'', CHR ''['', CHR ''n'', CHR ''t'', CHR ''f''}"
  by (auto simp: is_digit_def)

lemma encode_int_first:
  "\<exists>c cs. encode_int i = c # cs \<and> (is_digit c \<or> c = CHR ''-'')"
proof -
  obtain c cs where d: "digits (nat \<bar>i\<bar>) = c # cs"
    using digits_nonempty[of "nat \<bar>i\<bar>"] by (cases "digits (nat \<bar>i\<bar>)") auto
  then have "is_digit c" using digits_all[of "nat \<bar>i\<bar>"] by simp
  then show ?thesis using d by (cases "i < 0") (auto simp: encode_int_def abs_if)
qed

lemma dumps_first: "\<exists>c cs. json_dumps j = c # cs \<and> value_start c"
proof (cases j)
  case (JInt i)
  obtain c cs where "encode_int i = c # cs" "is_digit c \<or> c = CHR ''-''"
    using encode_int_first by blast
  then show ?thesis using JInt is_digit_start[of c]
    by (auto simp: value_start_def is_ws_def)
qed (auto simp: value_start_def is_ws_def encode_string_def)

lemma join_first:
  "xs \<noteq> [] \<Longrightarrow> \<exists>c cs. join sep (map json_dumps xs) @ t = c # cs \<and> value_start c"
proof (cases xs)
  case Nil
  then show "xs \<noteq> [] \<Longrightarrow> ?thesis" by simp
next
  case (Cons x ys)
  obtain c cs where "json_dumps x = c # cs" "value_start c" using dumps_first by blast
  then show ?thesis using Cons by (cases ys) auto
qed

lemma scan_items_encode:
  assumes IH: "\<And>x n r. x \<in> set xs \<Longrightarrow> weight x \<le> n \<Longrightarrow> ok_rest r \<Longrightarrow>
                 scan_value n (json_dumps x @ r) = Some (x, r)"
    and "xs \<noteq> []" and "sum_list (map (\<lambda>x. Suc (weight x)) xs) \<le> n"
  shows "scan_items n (join '', '' (map json_dumps xs) @ CHR '']'' # r) = Some (xs, r)"
  using assms
proof (induction xs arbitrary: n)
  case Nil
  then show ?case by simp
next
  case (Cons x ys)
  from Cons.prems(3) obtain m where n: "n = Suc m" and wx: "weight x \<le> m"
    and rest: "sum_list (map (\<lambda>x. Suc (weight x)) ys) \<le> m"
    by (cases n) auto
  show ?case
  proof (cases ys)
    case Nil
    have "scan_value m (json_dumps x @ CHR '']'' # r) = Some (x, CHR '']'' # r)"
      using Cons.prems(1)[of x m] wx by (simp add: ok_rest_delim)
    then show ?thesis using Nil n by (simp add: skip_ws_delim)
  next
    case (Cons y zs)
    let ?t = "join '', '' (map json_dumps ys) @ CHR '']'' # r"
    have v: "scan_value m (json_dumps x @ CHR '','' # CHR '' '' # ?t) =
               Some (x, CHR '','' # CHR '' '' # ?t)"
      using Cons.prems(1)[of x m] wx by (simp add: ok_rest_delim)
    obtain c cs where t: "?t = c # cs" "value_start c"
      using join_first[of ys] Cons by blast
    have sk: "skip_ws (CHR '' '' # ?t) = ?t"
      using t skip_ws_start by (simp add: skip_ws_space)
    have "scan_items m ?t = Some (ys, r)"
      by (rule Cons.IH) (use Cons.prems(1) Cons rest in auto)
    then have "scan_items (Suc m) (json_dumps x @ CHR '','' # CHR '' '' # ?t) = Some (x # ys, r)"
      using v sk by (simp add: skip_ws_delim)
    then show ?thesis using Cons n by simp
  qed
qed

lemma dumps_obj: "json_dumps (JObj kvs) = ''{'' @ join '', '' (map encode_member kvs) @ ''}''"
proof -
  have "(\<lambda>(k, v). encode_string k @ '': '' @ json_dumps v) = encode_member"
    by (auto simp: fun_eq_iff encode_member_def)
  then show ?thesis by simp
qed

lemma scan_member_one:
  assumes v: "scan_value m (json_dumps v @ t) = Some (v, t)"
  shows "scan_members (Suc m) (encode_member (k, v) @ t) =
     (case skip_ws t of
        [] \<Rightarrow> None
      | d # r3 \<Rightarrow>
          if d = CHR ''}'' then Some ([(k, v)], r3)
          else if d = CHR '','' then
            map_option (\<lambda>(ms, r4). ((k, v) # ms, r4)) (scan_members m (skip_ws r3))
          else None)"
proof -
  obtain c cs where d: "json_dumps v = c # cs" "value_start c" using dumps_first by blast
  have sk: "skip_ws (CHR '' '' # json_dumps v @ t) = json_dumps v @ t"
    using d skip_ws_start by (simp add: skip_ws_space)
  have s: "scan_string
             (concat (map escape_char k) @ CHR ''\"'' # CHR '':'' # CHR '' '' # json_dumps v @ t)
             = Some (k, CHR '':'' # CHR '' '' # json_dumps v @ t)"
    by (rule scan_string_encode)
  show ?thesis
    using s sk v by (simp add: encode_member_def encode_string_def skip_ws_delim)
qed

lemma members_first:
  "kvs \<noteq> [] \<Longrightarrow> \<exists>cs. join sep (map encode_member kvs) @ t = CHR ''\"'' # cs"
proof (cases kvs)
  case Nil
  then show "kvs \<noteq> [] \<Longrightarrow> ?thesis" by simp
next
  case (Cons kv ys)
  then show ?thesis by (cases ys) (auto simp: encode_member_def encode_string_def)
qed

lemma quote_start: "value_start CHR ''\"''"
  by (simp add: value_start_def is_ws_def)

lemma scan_members_encode:
  assumes IH: "\<And>k v n r. (k, v) \<in> set kvs \<Longrightarrow> weight v \<le> n \<Longrightarrow> ok_rest r \<Longrightarrow>
                 scan_value n (json_dumps v @ r) = Some (v, r)"
    and "kvs \<noteq> []" and "sum_list (map (\<lambda>(k, v). Suc (weight v)) kvs) \<le> n"
  shows "scan_members n (join '', '' (map encode_member kvs) @ CHR ''}'' # r) = Some (kvs, r)"
  using assms
proof (induction kvs arbitrary: n)
  case Nil
  then show ?case by simp
next
  case (Cons kv ys)
  obtain k v where kv: "kv = (k, v)" by (cases kv)
  from Cons.prems(3) kv obtain m where n: "n = Suc m" and wx: "weight v \<le> m"
    and rest: "sum_list (map (\<lambda>(k, v). Suc (weight v)) ys) \<le> m"
    by (cases n) auto
  show ?case
  proof (cases ys)
    case Nil
    have "scan_value m (json_dumps v @ CHR ''}'' # r) = Some (v, CHR ''}'' # r)"
      using Cons.prems(1)[of k v m] wx kv by (simp add: ok_rest_delim)
    from scan_member_one[OF this, of k] show ?thesis
      using Nil n kv by (simp add: skip_ws_delim)
  next
    case (Cons y zs)
    let ?t = "join '', '' (map encode_member ys) @ CHR ''}'' # r"
    have v: "scan_value m (json_dumps v @ CHR '','' # CHR '' '' # ?t) =
               Some (v, CHR '','' # CHR '' '' # ?t)"
      using Cons.prems(1)[of k v m] wx kv by (simp add: ok_rest_delim)
    obtain cs where t: "?t = CHR ''\"'' # cs"
      using members_first[of ys] Cons by blast
    have sk: "skip_ws (CHR '' '' # ?t) = ?t"
      using t skip_ws_start[OF quote_start] by (simp add: skip_ws_space)
    have "scan_members m ?t = Some (ys, r)"
      by (rule Cons.IH) (use Cons.prems(1) Cons rest in auto)
    then have "scan_members (Suc m) (encode_member (k, v) @ CHR '','' # CHR '' '' # ?t) =
                 Some ((k, v) # ys, r)"
      using scan_member_one[OF v, of k] sk by (simp add: skip_ws_delim)
    then show ?thesis using Cons n kv by simp
  qed
qed

lemma scan_value_encode:
  "weight j \<le> n \<Longrightarrow> ok_rest r \<Longrightarrow> scan_value n (json_dumps j @ r) = Some (j, r)"
proof (induction j arbitrary: n r)
  case JNull
  then obtain m where "n = Suc m" by (cases n) auto
  then show ?case by simp
next
  case (JBool b)
  then obtain m where "n = Suc m" by (cases n) auto
  then show ?case by simp
next
  case (JInt i)
  then obtain m where n: "n = Suc m" by (cases n) auto
  obtain c cs where e: "encode_int i = c # cs" and c: "is_digit c \<or> c = CHR ''-''"
    using encode_int_first by blast
  have "c \<notin> {CHR ''\"'', CHR ''{'', CHR ''['', CHR ''n'', CHR ''t'', CHR ''f''}"
    using c is_digit_other[of c] by auto
  then have "scan_value (Suc m) ((c # cs) @ r) = scan_number ((c # cs) @ r)" by simp
  then show ?case using scan_number_encode[OF JInt.prems(2), of i] n e by simp
next
  case (JStr s)
  then obtain m where "n = Suc m" by (cases n) auto
  then show ?case using scan_string_encode[of s r] by (simp add: encode_string_def)
next
  case (JArr xs)
  from JArr.prems obtain m where n: "n = Suc m"
    and w: "sum_list (map (\<lambda>x. Suc (weight x)) xs) \<le> m"
    by (cases n) auto
  show ?case
  proof (cases "xs = []")
    case True
    then show ?thesis using n by (simp add: skip_ws_delim)
  next
    case False
    let ?t = "join '', '' (map json_dumps xs) @ CHR '']'' # r"
    obtain c cs where t: "?t = c # cs" "value_start c" using join_first[OF False] by blast
    then have c: "c \<noteq> CHR '']''" by (simp add: value_start_def)
    have "scan_items m ?t = Some (xs, r)"
      by (rule scan_items_encode[OF _ False w]) (use JArr.IH in auto)
    then have "scan_value (Suc m) (CHR ''['' # ?t) = Some (JArr xs, r)"
      using t c skip_ws_start[of c cs] by simp
    then show ?thesis using n by simp
  qed
next
  case (JObj kvs)
  from JObj.prems obtain m where n: "n = Suc m"
    and w: "sum_list (map (\<lambda>(k, v). Suc (weight v)) kvs) \<le> m"
    by (cases n) auto
  show ?case
  proof (cases "kvs = []")
    case True
    then show ?thesis using n by (simp add: skip_ws_delim)
  next
    case False
    let ?t = "join '', '' (map encode_member kvs) @ CHR ''}'' # r"
    obtain cs where t: "?t = CHR ''\"'' # cs" using members_first[OF False] by blast
    have "scan_members m ?t = Some (kvs, r)"
    proof (rule scan_members_encode[OF _ False w])
      fix k v n' r'
      assume "(k, v) \<in> set kvs" "weight v \<le> n'" "ok_rest r'"
      then show "scan_value n' (json_dumps v @ r') = Some (v, r')"
        using JObj.IH[of "(k, v)" v n' r'] by simp
    qed
    then have "scan_value (Suc m) (CHR ''{'' # ?t) = Some (JObj kvs, r)"
      using t skip_ws_start[OF quote_start, of cs] by simp
    then show ?thesis using n by (simp add: dumps_obj del: json_dumps.simps)
  qed
qed

lemma length_join: "sum_list (map length ys) \<le> length (join sep ys)"
  by (induction sep ys rule: join.induct) auto

lemma sum_list_le:
  "(\<And>x. x \<in> set xs \<Longrightarrow> f x \<le> g x) \<Longrightarrow> sum_list (map f xs) \<le> (sum_list (map g xs) :: nat)"
  by (induction xs) (auto intro: add_mono)

lemma weight_bound: "Suc (weight j) \<le> 2 * length (json_dumps j)"
proof (induction j)
  case (JInt i)
  obtain c cs where "encode_int i = c # cs" using encode_int_first by blast
  then show ?case by simp
next
  case (JStr s)
  then show ?case by (simp add: encode_string_def)
next
  case (JArr xs)
  have "sum_list (map (\<lambda>x. Suc (weight x)) xs) \<le>
        sum_list (map (\<lambda>x. 2 * length (json_dumps x)) xs)"
    by (rule sum_list_le) (rule JArr.IH)
  also have "\<dots> = 2 * sum_list (map length (map json_dumps xs))"
    by (simp add: sum_list_const_mult comp_def)
  also have "\<dots> \<le> 2 * length (join '', '' (map json_dumps xs))"
    using length_join[of "map json_dumps xs" "'', ''"] by simp
  finally show ?case by simp
next
  case (JObj kvs)
  have "sum_list (map (\<lambda>(k, v). Suc (weight v)) kvs) \<le>
        sum_list (map (\<lambda>kv. 2 * length (encode_member kv)) kvs)"
  proof (rule sum_list_le)
    fix kv assume in_kvs: "kv \<in> set kvs"
    obtain k v where kv: "kv = (k, v)" by (cases kv)
    have "Suc (weight v) \<le> 2 * length (json_dumps v)"
      by (rule JObj.IH[of "(k, v)" v]) (use in_kvs kv in simp_all)
    then show "(case kv of (k, v) \<Rightarrow> Suc (weight v)) \<le> 2 * length (encode_member kv)"
      by (simp add: kv encode_member_def)
  qed
  also have "\<dots> = 2 * sum_list (map length (map encode_member kvs))"
    by (simp add: sum_list_const_mult comp_def)
  also have "\<dots> \<le> 2 * length (join '', '' (map encode_member kvs))"
    using length_join[of "map encode_member kvs" "'', ''"] by simp
  finally show ?case by (simp add: dumps_obj del: json_dumps.simps)
qed simp_all

lemma json_roundtrip: "json_loads (json_dumps j) = Some j"
proof -
  obtain c cs where d: "json_dumps j = c # cs" "value_start c" using dumps_first by blast
  then have sk: "skip_ws (json_dumps j) = json_dumps j" using skip_ws_start by simp
  have w: "weight j \<le> 2 * length (json_dumps j) + 2" using weight_bound[of j] by simp
  have okr: "ok_rest []" by (simp add: ok_rest_def)
  from scan_value_encode[OF w okr]
  have sv: "scan_value (2 * length (json_dumps j) + 2) (json_dumps j) = Some (j, [])"
    by (simp only: append_Nil2)
  have e: "skip_ws [] = []" by (simp add: skip_ws_def)
  show ?thesis unfolding json_loads_def sk sv by (simp add: e)
qed


section \<open>Properties of the spreadsheet backend and the data frame\<close>

lemma index_of_Some_iff: "x \<in> set ys \<Longrightarrow> \<exists>i. index_of x ys = Some i \<and> i < length ys \<and> ys ! i = x"
  by (induction ys) auto


lemma cell_at_set_cell_same: "cell_at (set_cell r j v) j = v"
  by (auto simp: cell_at_def set_cell_def nth_append)


lemma DataFrame_columns: "sheet_rows sh \<noteq> [] \<Longrightarrow> df_columns (DataFrame (get_all_records sh)) = sheet_headers sh"
  by (cases "sheet_rows sh") (auto simp: DataFrame_def get_all_records_def map_nth comp_def)

lemma DataFrame_columns_empty: "sheet_rows sh = [] \<Longrightarrow> df_columns (DataFrame (get_all_records sh)) = []"
  by (auto simp: DataFrame_def get_all_records_def)

lemma DataFrame_rows:
  "df_rows (DataFrame (get_all_records sh)) =
     zip [0..<length (sheet_rows sh)]
       (map (\<lambda>r. map (cell_at r) [0..<length (sheet_headers sh)]) (sheet_rows sh))"
  by (auto simp: DataFrame_def get_all_records_def comp_def)

lemma row_get_record:
  "index_of name hs = Some j \<Longrightarrow> j < length hs \<Longrightarrow>
   row_get hs (map (cell_at r) [0..<length hs]) name = cell_at r j"
  by (simp add: row_get_def cell_at_def)

lemma mark_rows_props:
  "\<forall>p \<in> set L. fst p < length (sheet_rows sh) \<Longrightarrow>
   sheet_headers (mark_rows col L sh) = sheet_headers sh \<and>
   length (sheet_rows (mark_rows col L sh)) = length (sheet_rows sh) \<and>
   (\<forall>i < length (sheet_rows sh).
      cell_at (sheet_rows (mark_rows col L sh) ! i) (col - 1) =
        (if i \<in> fst ` set L then ''Yes'' else cell_at (sheet_rows sh ! i) (col - 1)))"
proof (induction L arbitrary: sh)
  case Nil
  then show ?case by (simp add: mark_rows_def)
next
  case (Cons p L)
  obtain idx vals where p: "p = (idx, vals)" by (cases p)
  let ?sh = "update_cell sh (idx + 2) col ''Yes''"
  from Cons.prems p have idx: "idx < length (sheet_rows sh)" by simp
  have h: "sheet_headers ?sh = sheet_headers sh" by (simp add: update_cell_def)
  have l: "length (sheet_rows ?sh) = length (sheet_rows sh)"
    using idx by (simp add: update_cell_def set_row_cell_def)
  have c: "\<And>i. i < length (sheet_rows sh) \<Longrightarrow>
      cell_at (sheet_rows ?sh ! i) (col - 1) =
        (if i = idx then ''Yes'' else cell_at (sheet_rows sh ! i) (col - 1))"
    using idx by (auto simp: update_cell_def set_row_cell_def cell_at_set_cell_same nth_list_update)
  have "\<forall>p \<in> set L. fst p < length (sheet_rows ?sh)" using Cons.prems l by simp
  from Cons.IH[OF this] have IH:
    "sheet_headers (mark_rows col L ?sh) = sheet_headers ?sh"
    "length (sheet_rows (mark_rows col L ?sh)) = length (sheet_rows ?sh)"
    "\<And>i. i < length (sheet_rows ?sh) \<Longrightarrow> cell_at (sheet_rows (mark_rows col L ?sh) ! i) (col - 1) =
        (if i \<in> fst ` set L then ''Yes'' else cell_at (sheet_rows ?sh ! i) (col - 1))"
    by auto
  have m: "mark_rows col (p # L) sh = mark_rows col L ?sh" by (simp add: mark_rows_def p)
  show ?case unfolding m using IH h l c p by auto
qed

lemma filter_all_yes:
  assumes "\<And>p. p \<in> set xs \<Longrightarrow> \<not> P p"
  shows "filter P xs = []"
  using assms by (induction xs) auto

lemma in_DataFrame_rows:
  "(p \<in> set (df_rows (DataFrame (get_all_records s)))) =
   (\<exists>i < length (sheet_rows s).
      p = (i, map (cell_at (sheet_rows s ! i)) [0..<length (sheet_headers s)]))"
  unfolding DataFrame_rows
  apply (auto simp: set_zip)
  subgoal for i by (rule exI[of _ i]) simp
  done

section \<open>The ledger filter\<close>

text \<open>
  C1. On a frame with a \<open>Processed\<close> column the ledger filter returns, in their order
  and with their labels, exactly the rows whose \<open>Processed\<close> cell is not the text
  \<open>Yes\<close>, compared as it stands. After the processed mark is written for every row the
  filter returned, the filter on the sheet read again returns no row.
\<close>

theorem ledger_filter_idempotent:
  "(\<forall>df :: dataframe. ''Processed'' \<in> set (df_columns df) \<longrightarrow>
      (\<exists>out. new_rows_df df = Inr out \<and> df_columns out = df_columns df \<and>
         df_rows out =
           filter (\<lambda>(idx, vals). row_get (df_columns df) vals ''Processed'' \<noteq> ''Yes'') (df_rows df) \<and>
         subseq (df_rows out) (df_rows df))) \<and>
   (\<forall>sh :: sheet. ''Processed'' \<in> set (df_columns (DataFrame (get_all_records sh))) \<longrightarrow>
      (\<exists>out col. new_rows_df (DataFrame (get_all_records sh)) = Inr out \<and>
         ensure_column sh ''Processed'' = Inr (sh, col) \<and>
         (\<exists>out'. new_rows_df (DataFrame (get_all_records (mark_rows col (df_rows out) sh))) = Inr out' \<and>
            df_rows out' = [])))"
proof (intro conjI allI impI)
  fix df :: dataframe assume "''Processed'' \<in> set (df_columns df)"
  then show "\<exists>out. new_rows_df df = Inr out \<and> df_columns out = df_columns df \<and>
         df_rows out =
           filter (\<lambda>(idx, vals). row_get (df_columns df) vals ''Processed'' \<noteq> ''Yes'') (df_rows df) \<and>
         subseq (df_rows out) (df_rows df)"
    by (simp add: new_rows_df_def)
next
  fix sh :: sheet
  let ?df = "DataFrame (get_all_records sh)"
  assume P: "''Processed'' \<in> set (df_columns ?df)"
  have ne: "sheet_rows sh \<noteq> []"
    using P DataFrame_columns_empty[of sh] by auto
  then have cols: "df_columns ?df = sheet_headers sh" by (rule DataFrame_columns)
  with P have Ph: "''Processed'' \<in> set (sheet_headers sh)" by simp
  then obtain j where j: "index_of ''Processed'' (sheet_headers sh) = Some j"
    "j < length (sheet_headers sh)"
    using index_of_Some_iff by blast
  let ?P = "\<lambda>(idx :: nat, vals). row_get (sheet_headers sh) vals ''Processed'' \<noteq> ''Yes''"
  let ?out = "?df\<lparr>df_rows := filter ?P (df_rows ?df)\<rparr>"
  have out: "new_rows_df ?df = Inr ?out"
    using P cols by (simp add: new_rows_df_def)
  have ens: "ensure_column sh ''Processed'' = Inr (sh, j + 1)"
    using Ph j by (simp add: ensure_column_def row_values1_def)
  let ?sh' = "mark_rows (j + 1) (df_rows ?out) sh"
  have inr: "\<forall>p \<in> set (df_rows ?out). fst p < length (sheet_rows sh)"
    by (auto simp: in_DataFrame_rows)
  note mp = mark_rows_props[OF inr, of "j + 1"]
  have h': "sheet_headers ?sh' = sheet_headers sh" using mp by simp
  have l': "length (sheet_rows ?sh') = length (sheet_rows sh)" using mp by simp
  have c': "\<And>i. i < length (sheet_rows sh) \<Longrightarrow>
      cell_at (sheet_rows ?sh' ! i) j =
        (if i \<in> fst ` set (df_rows ?out) then ''Yes'' else cell_at (sheet_rows sh ! i) j)"
    using mp by simp
  have ne': "sheet_rows ?sh' \<noteq> []" using l' ne by auto
  let ?df' = "DataFrame (get_all_records ?sh')"
  have cols': "df_columns ?df' = sheet_headers sh"
    using DataFrame_columns[OF ne'] h' by simp
  have all_yes: "\<not> ?P p" if p: "p \<in> set (df_rows ?df')" for p
  proof -
    from p obtain i where i: "i < length (sheet_rows sh)"
      and pe: "p = (i, map (cell_at (sheet_rows ?sh' ! i)) [0..<length (sheet_headers sh)])"
      unfolding in_DataFrame_rows h' l' by blast
    have g: "row_get (sheet_headers sh) (snd p) ''Processed'' = cell_at (sheet_rows ?sh' ! i) j"
      unfolding pe snd_conv by (rule row_get_record[OF j])
    show ?thesis
    proof (cases "i \<in> fst ` set (df_rows ?out)")
      case True
      then show ?thesis using g c'[OF i] pe by simp
    next
      case False
      let ?q = "(i, map (cell_at (sheet_rows sh ! i)) [0..<length (sheet_headers sh)])"
      have qin: "?q \<in> set (df_rows ?df)"
        unfolding in_DataFrame_rows using i by blast
      have "\<not> ?P ?q"
      proof
        assume "?P ?q"
        with qin have "?q \<in> set (df_rows ?out)" by simp
        then have "i \<in> fst ` set (df_rows ?out)" by force
        with False show False by simp
      qed
      then have "cell_at (sheet_rows sh ! i) j = ''Yes''"
        using row_get_record[OF j, of "sheet_rows sh ! i"] by simp
      then show ?thesis using g c'[OF i] False pe by simp
    qed
  qed
  have "filter ?P (df_rows ?df') = []" by (rule filter_all_yes) (rule all_yes)
  then have "new_rows_df ?df' = Inr (?df'\<lparr>df_rows := []\<rparr>)"
    using cols' Ph by (simp add: new_rows_df_def)
  then show "\<exists>out col. new_rows_df ?df = Inr out \<and>
         ensure_column sh ''Processed'' = Inr (sh, col) \<and>
         (\<exists>out'. new_rows_df (DataFrame (get_all_records (mark_rows col (df_rows out) sh))) = Inr out' \<and>
            df_rows out' = [])"
    using out ens by auto
qed

text \<open>
  A sheet whose second to fourth rows are unprocessed (\<open>yes\<close>, a blank and \<open> Yes\<close> are
  not the mark).
\<close>

theorem ledger_filter_idempotent_witness:
  "''Processed'' \<in> set (df_columns (DataFrame (get_all_records ledger_example))) \<and>
   new_rows_df (DataFrame (get_all_records ledger_example)) =
     Inr \<lparr>df_columns = [''Name'', ''Processed''],
          df_rows = [(1, [''Al'', ''yes'']), (2, [''Bo'', '''']), (3, [''Cy'', '' Yes''])]\<rparr> \<and>
   (\<exists>out col. new_rows_df (DataFrame (get_all_records ledger_example)) = Inr out \<and>
      ensure_column ledger_example ''Processed'' = Inr (ledger_example, col) \<and>
      (\<exists>out'. new_rows_df (DataFrame (get_all_records (mark_rows col (df_rows out) ledger_example))) = Inr out' \<and>
            df_rows out' = []))"
proof -
  have h: "''Processed'' \<in> set (df_columns (DataFrame (get_all_records ledger_example)))"
    by code_simp
  have e: "new_rows_df (DataFrame (get_all_records ledger_example)) =
     Inr \<lparr>df_columns = [''Name'', ''Processed''],
          df_rows = [(1, [''Al'', ''yes'']), (2, [''Bo'', '''']), (3, [''Cy'', '' Yes''])]\<rparr>"
    by code_simp
  from ledger_filter_idempotent h e show ?thesis by blast
qed

section \<open>Header normalization\<close>

lemma is_space_lower_char: "is_space (lower_char c) = is_space c"
  by (auto simp: is_space_def lower_char_def Let_def)

lemma lower_char_idem: "lower_char (lower_char c) = lower_char c"
  by (auto simp: lower_char_def Let_def)

lemma lower_idem: "lower (lower s) = lower s"
  by (simp add: lower_def lower_char_idem)

lemma lower_append: "lower (a @ b) = lower a @ lower b"
  by (simp add: lower_def)

lemma dropWhile_space_lower: "dropWhile is_space (lower s) = lower (dropWhile is_space s)"
  by (induction s) (auto simp: lower_def is_space_lower_char)

lemma lower_rev: "lower (rev s) = rev (lower s)"
  by (simp add: lower_def rev_map)

lemma strip_lower: "strip (lower s) = lower (strip s)"
  by (simp add: strip_def dropWhile_space_lower lower_rev[symmetric])

lemma strip_pad:
  assumes l: "\<forall>c \<in> set l. is_space c" and r: "\<forall>c \<in> set r. is_space c"
  shows "strip (l @ x @ r) = strip x"
proof -
  have d1: "dropWhile is_space (l @ x @ r) = dropWhile is_space (x @ r)"
    by (rule dropWhile_append2) (use l in auto)
  show ?thesis
  proof (cases "\<forall>c \<in> set x. is_space c")
    case True
    have e1: "dropWhile is_space (x @ r) = []"
      using True r by auto
    have e2: "dropWhile is_space x = []"
      using True by auto
    show ?thesis unfolding strip_def d1 e1 e2 by simp
  next
    case False
    then have "dropWhile is_space (x @ r) = dropWhile is_space x @ r"
      by auto
    moreover have "dropWhile is_space (rev r @ y) = dropWhile is_space y" for y
      by (rule dropWhile_append2) (use r in auto)
    ultimately show ?thesis by (simp add: strip_def d1)
  qed
qed

lemma strip_decompose:
  "\<exists>l r. s = l @ strip s @ r \<and> (\<forall>c \<in> set l. is_space c) \<and> (\<forall>c \<in> set r. is_space c)"
proof -
  let ?d = "dropWhile is_space s"
  have 1: "s = takeWhile is_space s @ ?d" by simp
  have 2: "rev ?d = takeWhile is_space (rev ?d) @ dropWhile is_space (rev ?d)" by simp
  then have "?d = rev (dropWhile is_space (rev ?d)) @ rev (takeWhile is_space (rev ?d))"
    by (metis rev_append rev_rev_ident)
  then have 3: "?d = strip s @ rev (takeWhile is_space (rev ?d))" by (simp add: strip_def)
  have a: "\<forall>c \<in> set (takeWhile is_space s). is_space c" by (auto dest: set_takeWhileD)
  have b: "\<forall>c \<in> set (rev (takeWhile is_space (rev ?d))). is_space c"
    by (auto dest: set_takeWhileD)
  from 1 3 have "s = takeWhile is_space s @ strip s @ rev (takeWhile is_space (rev ?d))" by metis
  with a b show ?thesis by blast
qed

text \<open>For a name in normal form, being a variant is what the lookup key computes.\<close>

lemma variant_of_iff:
  assumes v: "strip (lower v) = v"
  shows "variant_of h v = (strip (lower h) = v)"
proof
  assume "variant_of h v"
  then obtain l m r where h: "h = l @ m @ r" and l: "\<forall>c \<in> set l. is_space c"
    and r: "\<forall>c \<in> set r. is_space c" and m: "lower m = lower v"
    unfolding variant_of_def by blast
  have "strip (lower h) = lower (strip (l @ m @ r))" by (simp add: strip_lower h)
  also have "\<dots> = lower (strip m)" using strip_pad[OF l r] by simp
  also have "\<dots> = strip (lower v)" using m by (simp add: strip_lower[symmetric])
  finally show "strip (lower h) = v" using v by simp
next
  assume e: "strip (lower h) = v"
  obtain l r where h: "h = l @ strip h @ r" and l: "\<forall>c \<in> set l. is_space c"
    and r: "\<forall>c \<in> set r. is_space c"
    using strip_decompose by blast
  have "lower v = lower (lower (strip h))" using e strip_lower[of h] by simp
  then have "lower (strip h) = lower v" by (simp add: lower_idem)
  with h l r show "variant_of h v" unfolding variant_of_def by blast
qed

lemma fold_lower_map:
  "fold (\<lambda>c m. m(strip (lower c) \<mapsto> c)) cols m =
     m ++ map_of (rev (map (\<lambda>c. (strip (lower c), c)) cols))"
  by (induction cols arbitrary: m) (auto simp: fun_eq_iff map_add_def split: option.splits)

lemma lower_map_eq: "lower_map cols = map_of (rev (map (\<lambda>c. (strip (lower c), c)) cols))"
  by (simp add: lower_map_def fold_lower_map)

lemma lower_map_SomeD: "lower_map cols k = Some c \<Longrightarrow> c \<in> set cols \<and> strip (lower c) = k"
  by (auto simp: lower_map_eq dest!: map_of_SomeD)

lemma lower_map_SomeI: "h \<in> set cols \<Longrightarrow> \<exists>c. lower_map cols (strip (lower h)) = Some c"
proof -
  assume "h \<in> set cols"
  then have "strip (lower h) \<in> fst ` set (rev (map (\<lambda>c. (strip (lower c), c)) cols))" by force
  then show ?thesis unfolding lower_map_eq by (metis map_of_eq_None_iff not_Some_eq)
qed

lemma aliases_normal:
  "\<forall>(c, vs) \<in> set aliases. \<forall>v \<in> set vs. strip (lower v) = v \<and> v \<noteq> []"
  by code_simp

lemma aliases_disjoint:
  "\<forall>(c, vs) \<in> set aliases. \<forall>(c', vs') \<in> set aliases. \<forall>v \<in> set vs. \<forall>v' \<in> set vs'.
     v = v' \<longrightarrow> c = c'"
  by code_simp

lemma aliases_own_name: "\<forall>(c, vs) \<in> set aliases. strip (lower c) \<in> set vs"
  by code_simp

lemma aliases_required: "map fst aliases = required_cols"
  by (simp add: aliases_def required_cols_def)

lemma find_src_lower_map:
  assumes "\<forall>v \<in> set vs. strip (lower v) \<noteq> []"
  shows "find_src (lower_map cols) vs =
     (case find (\<lambda>v. \<exists>h \<in> set cols. strip (lower h) = strip (lower v)) vs of
        None \<Rightarrow> None
      | Some v \<Rightarrow> lower_map cols (strip (lower v)))"
  using assms
proof (induction vs)
  case Nil
  then show ?case by simp
next
  case (Cons v vs)
  show ?case
  proof (cases "lower_map cols (strip (lower v))")
    case None
    then have "\<not> (\<exists>h \<in> set cols. strip (lower h) = strip (lower v))"
      using lower_map_SomeI[of _ cols] by (metis option.distinct(1))
    then show ?thesis using None Cons by simp
  next
    case (Some s)
    then have s: "s \<in> set cols" "strip (lower s) = strip (lower v)"
      using lower_map_SomeD by blast+
    have "s \<noteq> []"
    proof
      assume "s = []"
      then have "strip (lower s) = []" by (simp add: strip_def lower_def)
      with s Cons.prems show False by simp
    qed
    then show ?thesis using Some s by auto
  qed
qed

lemma build_renames_origin:
  "build_renames cols lm A rn s = Some c \<Longrightarrow>
   rn s = Some c \<or> (\<exists>vs. (c, vs) \<in> set A \<and> c \<notin> set cols \<and> find_src lm vs = Some s)"
proof (induction A arbitrary: rn)
  case Nil
  then show ?case by simp
next
  case (Cons a A)
  obtain c' vs' where a: "a = (c', vs')" by (cases a)
  show ?case
  proof (cases "c' \<in> set cols")
    case True
    with Cons a show ?thesis by auto
  next
    case False
    show ?thesis
    proof (cases "find_src lm vs'")
      case None
      with Cons a False show ?thesis by auto
    next
      case (Some s')
      with Cons.prems a False
      have "build_renames cols lm A (rn(s' \<mapsto> c')) s = Some c" by simp
      from Cons.IH[OF this] show ?thesis
        using a False Some by (auto split: if_splits)
    qed
  qed
qed

lemma build_renames_present:
  assumes uniq: "\<forall>(c', vs') \<in> set A. c' \<notin> set cols \<longrightarrow> find_src lm vs' = Some s \<longrightarrow> c' = c"
    and src: "rn s = Some c \<or> (\<exists>vs. (c, vs) \<in> set A \<and> c \<notin> set cols \<and> find_src lm vs = Some s)"
  shows "build_renames cols lm A rn s = Some c"
  using assms
proof (induction A arbitrary: rn)
  case Nil
  then show ?case by simp
next
  case (Cons a A)
  obtain c' vs' where a: "a = (c', vs')" by (cases a)
  have uniq': "\<forall>(c', vs') \<in> set A. c' \<notin> set cols \<longrightarrow> find_src lm vs' = Some s \<longrightarrow> c' = c"
    using Cons.prems(1) by auto
  show ?case
  proof (cases "c' \<in> set cols")
    case True
    have "rn s = Some c \<or> (\<exists>vs. (c, vs) \<in> set A \<and> c \<notin> set cols \<and> find_src lm vs = Some s)"
      using Cons.prems(2) a True by auto
    from Cons.IH[of rn, OF uniq' this] show ?thesis using a True by simp
  next
    case False
    show ?thesis
    proof (cases "find_src lm vs'")
      case None
      have "rn s = Some c \<or> (\<exists>vs. (c, vs) \<in> set A \<and> c \<notin> set cols \<and> find_src lm vs = Some s)"
        using Cons.prems(2) a None by auto
      from Cons.IH[of rn, OF uniq' this] show ?thesis using a False None by simp
    next
      case (Some s')
      have "(rn(s' \<mapsto> c')) s = Some c \<or>
            (\<exists>vs. (c, vs) \<in> set A \<and> c \<notin> set cols \<and> find_src lm vs = Some s)"
      proof (cases "s' = s")
        case True
        then have "c' = c" using Cons.prems(1) a False Some by auto
        then show ?thesis using True by simp
      next
        case False
        then show ?thesis using Cons.prems(2) a Some by auto
      qed
      then have "build_renames cols lm A (rn(s' \<mapsto> c')) s = Some c"
        by (rule Cons.IH[of "rn(s' \<mapsto> c')", OF uniq'])
      then show ?thesis unfolding a using False Some by simp
    qed
  qed
qed

lemma find_src_alias:
  assumes a: "(c, vs) \<in> set aliases" and f: "find_src (lower_map cols) vs = Some s"
  shows "s \<in> set cols \<and> strip (lower s) \<in> set vs \<and>
         find (\<lambda>v. \<exists>h \<in> set cols. variant_of h v) vs = Some (strip (lower s))"
proof -
  have n: "\<forall>v \<in> set vs. strip (lower v) = v \<and> v \<noteq> []" using aliases_normal a by blast
  then have ne: "\<forall>v \<in> set vs. strip (lower v) \<noteq> []" by simp
  have P: "find (\<lambda>v. \<exists>h \<in> set cols. variant_of h v) vs =
           find (\<lambda>v. \<exists>h \<in> set cols. strip (lower h) = strip (lower v)) vs"
    by (rule find_cong) (use n variant_of_iff in auto)
  from f obtain v where v: "find (\<lambda>v. \<exists>h \<in> set cols. strip (lower h) = strip (lower v)) vs = Some v"
    and l: "lower_map cols (strip (lower v)) = Some s"
    unfolding find_src_lower_map[OF ne] by (auto split: option.splits)
  from v have vin: "v \<in> set vs" by (auto simp: find_Some_iff)
  from l have s: "s \<in> set cols" "strip (lower s) = strip (lower v)"
    using lower_map_SomeD by blast+
  with n vin have "strip (lower s) = v" by simp
  with s vin v P show ?thesis by simp
qed

lemma find_src_alias_ex:
  assumes a: "(c, vs) \<in> set aliases" and h: "h \<in> set cols" and v: "v \<in> set vs"
    and var: "variant_of h v"
  shows "\<exists>s. find_src (lower_map cols) vs = Some s"
proof -
  have n: "\<forall>v \<in> set vs. strip (lower v) = v \<and> v \<noteq> []" using aliases_normal a by blast
  then have ne: "\<forall>v \<in> set vs. strip (lower v) \<noteq> []" by simp
  have "strip (lower h) = strip (lower v)" using var variant_of_iff[of v h] n v by simp
  then have "\<exists>v \<in> set vs. \<exists>h \<in> set cols. strip (lower h) = strip (lower v)" using h v by blast
  then obtain w where w: "find (\<lambda>v. \<exists>h \<in> set cols. strip (lower h) = strip (lower v)) vs = Some w"
    by (cases "find (\<lambda>v. \<exists>h \<in> set cols. strip (lower h) = strip (lower v)) vs")
       (auto simp: find_None_iff)
  then obtain h' where "h' \<in> set cols" "strip (lower h') = strip (lower w)"
    by (auto simp: find_Some_iff)
  then obtain s where "lower_map cols (strip (lower w)) = Some s"
    using lower_map_SomeI[of h' cols] by auto
  then show ?thesis unfolding find_src_lower_map[OF ne] using w by simp
qed

lemma renames_alias:
  assumes a: "(c, vs) \<in> set aliases" and c: "c \<notin> set cols"
    and f: "find_src (lower_map cols) vs = Some s"
  shows "renames_of cols s = Some c"
  unfolding renames_of_def
proof (rule build_renames_present)
  show "\<forall>(c', vs') \<in> set aliases. c' \<notin> set cols \<longrightarrow>
          find_src (lower_map cols) vs' = Some s \<longrightarrow> c' = c"
  proof (clarify)
    fix c' vs' assume a': "(c', vs') \<in> set aliases" and f': "find_src (lower_map cols) vs' = Some s"
    have "strip (lower s) \<in> set vs" "strip (lower s) \<in> set vs'"
      using find_src_alias[OF a f] find_src_alias[OF a' f'] by simp_all
    with aliases_disjoint a a' show "c' = c" by blast
  qed
  show "Map.empty s = Some c \<or>
        (\<exists>vs. (c, vs) \<in> set aliases \<and> c \<notin> set cols \<and> find_src (lower_map cols) vs = Some s)"
    using a c f by blast
qed

lemma renames_keep:
  assumes a: "(c, vs) \<in> set aliases" and c: "c \<in> set cols"
  shows "renames_of cols c = None"
proof (cases "renames_of cols c")
  case None
  then show ?thesis .
next
  case (Some c')
  then obtain vs' where a': "(c', vs') \<in> set aliases" and c': "c' \<notin> set cols"
    and f': "find_src (lower_map cols) vs' = Some c"
    unfolding renames_of_def using build_renames_origin[of cols "lower_map cols" aliases Map.empty c c']
    by auto
  have "strip (lower c) \<in> set vs'" using find_src_alias[OF a' f'] by simp
  moreover have "strip (lower c) \<in> set vs" using aliases_own_name a by blast
  ultimately have "c = c'" using aliases_disjoint a a' by blast
  with c c' show ?thesis by simp
qed

lemma resolved_alias:
  assumes a: "(c, vs) \<in> set aliases"
    and p: "c \<in> set cols \<or> (\<exists>h \<in> set cols. \<exists>v \<in> set vs. variant_of h v)"
  shows "c \<in> set (normalized_columns cols)"
proof (cases "c \<in> set cols")
  case True
  then have "(case renames_of cols c of Some c' \<Rightarrow> c' | None \<Rightarrow> c) = c"
    using renames_keep[OF a] by simp
  with True show ?thesis unfolding normalized_columns_def rename_columns_def by force
next
  case False
  with p obtain h v where "h \<in> set cols" "v \<in> set vs" "variant_of h v" by blast
  then obtain s where f: "find_src (lower_map cols) vs = Some s"
    using find_src_alias_ex[OF a] by blast
  then have s: "s \<in> set cols" using find_src_alias[OF a] by simp
  have "(case renames_of cols s of Some c' \<Rightarrow> c' | None \<Rightarrow> s) = c"
    using renames_alias[OF a False f] by simp
  with s show ?thesis unfolding normalized_columns_def rename_columns_def by force
qed

lemma map_of_aliases: "(c, vs) \<in> set aliases \<Longrightarrow> map_of aliases c = Some vs"
  by (rule map_of_is_SomeI) (simp_all add: aliases_required required_cols_def)



section \<open>The summarizer\<close>


lemma ai_summarize_no_backend:
  "\<not> use_openai e \<Longrightarrow>
   ai_summarize e symptoms urgency =
     Inr (json_dumps (summary_record
            (''Reported symptoms: '' @ replace_char (CHR 0x0A) '' '' (take 200 symptoms) @ ''...'')
            (str_or urgency ''Unknown'') (JArr [])))"
  by (simp add: ai_summarize_def Let_def str_or_def)





lemma replace_char_single:
  "replace_char a [b] s = map (\<lambda>c. if c = a then b else c) s"
  by (induction s) (auto simp: replace_char_def)


text \<open>
  C5. With no summarization backend in use, the summarizer returns the JSON text of
  the record whose summary is \<open>Reported symptoms: \<close>, then the first 200 characters of
  the symptoms with every newline replaced by a space, then \<open>...\<close>; whose urgency is
  the reported urgency, or \<open>Unknown\<close> when that is empty; and whose keywords are the
  empty list.
\<close>

theorem summarize_fallback:
  assumes "\<not> use_openai e"
  shows "\<exists>trunc.
     trunc = map (\<lambda>c. if c = CHR 0x0A then CHR '' '' else c) (take 200 symptoms) \<and>
     length trunc \<le> 200 \<and> CHR 0x0A \<notin> set trunc \<and>
     ai_summarize e symptoms urgency =
       Inr (json_dumps (summary_record (''Reported symptoms: '' @ trunc @ ''...'')
              (if urgency \<noteq> [] then urgency else ''Unknown'') (JArr []))) \<and>
     json_loads (json_dumps (summary_record (''Reported symptoms: '' @ trunc @ ''...'')
              (if urgency \<noteq> [] then urgency else ''Unknown'') (JArr []))) =
       Some (JObj [(''summary'', JStr (''Reported symptoms: '' @ trunc @ ''...'')),
                   (''urgency'', JStr (if urgency \<noteq> [] then urgency else ''Unknown'')),
                   (''keywords'', JArr [])])"
proof -
  let ?trunc = "map (\<lambda>c. if c = CHR 0x0A then CHR '' '' else c) (take 200 symptoms)"
  have "ai_summarize e symptoms urgency =
       Inr (json_dumps (summary_record (''Reported symptoms: '' @ ?trunc @ ''...'')
              (if urgency \<noteq> [] then urgency else ''Unknown'') (JArr [])))"
    using ai_summarize_no_backend[OF assms, of symptoms urgency]
    by (simp add: replace_char_single str_or_def)
  moreover have "length ?trunc \<le> 200" by simp
  moreover have "CHR 0x0A \<notin> set ?trunc" by auto
  ultimately show ?thesis
    using json_roundtrip[of "summary_record (''Reported symptoms: '' @ ?trunc @ ''...'')
              (if urgency \<noteq> [] then urgency else ''Unknown'') (JArr [])"]
    by (simp add: summary_record_def)
qed

theorem summarize_fallback_witness:
  "\<not> use_openai quiet_env \<and>
   ai_summarize quiet_env (''fever'' @ [CHR 0x0A] @ ''for 3 days'') [] =
     Inr ''{\"summary\": \"Reported symptoms: fever for 3 days...\", \"urgency\": \"Unknown\", \"keywords\": []}'' \<and>
   (\<exists>trunc.
     trunc = map (\<lambda>c. if c = CHR 0x0A then CHR '' '' else c)
               (take 200 (''fever'' @ [CHR 0x0A] @ ''for 3 days'')) \<and>
     length trunc \<le> 200 \<and> CHR 0x0A \<notin> set trunc \<and>
     ai_summarize quiet_env (''fever'' @ [CHR 0x0A] @ ''for 3 days'') [] =
       Inr (json_dumps (summary_record (''Reported symptoms: '' @ trunc @ ''...'')
              (if ([] :: string) \<noteq> [] then [] else ''Unknown'') (JArr []))) \<and>
     json_loads (json_dumps (summary_record (''Reported symptoms: '' @ trunc @ ''...'')
              (if ([] :: string) \<noteq> [] then [] else ''Unknown'') (JArr []))) =
       Some (JObj [(''summary'', JStr (''Reported symptoms: '' @ trunc @ ''...'')),
                   (''urgency'', JStr (if ([] :: string) \<noteq> [] then [] else ''Unknown'')),
                   (''keywords'', JArr [])]))"
proof -
  have h: "\<not> use_openai quiet_env" by code_simp
  have e: "ai_summarize quiet_env (''fever'' @ [CHR 0x0A] @ ''for 3 days'') [] =
     Inr ''{\"summary\": \"Reported symptoms: fever for 3 days...\", \"urgency\": \"Unknown\", \"keywords\": []}''"
    by code_simp
  from summarize_fallback[OF h, of "''fever'' @ [CHR 0x0A] @ ''for 3 days''" "[]"] h e
  show ?thesis by blast
qed






section \<open>The processing loop\<close>







lemma send_email_keeps [simp]:
  "ls_sheet (send_email e yag idx name subject body st) = ls_sheet st"
  "ls_archive (send_email e yag idx name subject body st) = ls_archive st"
  "updates_made (send_email e yag idx name subject body st) = updates_made st"
  "filter is_sheet_action (ls_actions (send_email e yag idx name subject body st)) =
     filter is_sheet_action (ls_actions st)"
  "filter is_slack_action (ls_actions (send_email e yag idx name subject body st)) =
     filter is_slack_action (ls_actions st)"
  by (simp_all add: send_email_def split: option.splits)

lemma slack_notify_keeps [simp]:
  "ls_sheet (slack_notify e slack idx text st) = ls_sheet st"
  "ls_archive (slack_notify e slack idx text st) = ls_archive st"
  "updates_made (slack_notify e slack idx text st) = updates_made st"
  "filter is_sheet_action (ls_actions (slack_notify e slack idx text st)) =
     filter is_sheet_action (ls_actions st)"
  "filter is_email_action (ls_actions (slack_notify e slack idx text st)) =
     filter is_email_action (ls_actions st)"
  by (simp_all add: slack_notify_def split: option.splits)

lemma mark_processed_parts [simp]:
  "ls_sheet (mark_processed e col idx st) =
     (case update_cell_raises e idx of
        None \<Rightarrow> update_cell (ls_sheet st) (idx + 2) col ''Yes'' | Some x \<Rightarrow> ls_sheet st)"
  "ls_archive (mark_processed e col idx st) = ls_archive st"
  "updates_made (mark_processed e col idx st) = updates_made st"
  "ls_actions (mark_processed e col idx st) = ls_actions st @ [UpdateCell (idx + 2) col ''Yes'']"
  by (simp_all add: mark_processed_def split: option.splits)

lemma append_archive_parts [simp]:
  "ls_sheet (append_archive e idx cells st) = ls_sheet st"
  "ls_archive (append_archive e idx cells st) =
     (case append_row_raises e idx of None \<Rightarrow> ls_archive st @ [cells] | Some x \<Rightarrow> ls_archive st)"
  "updates_made (append_archive e idx cells st) = updates_made st"
  "ls_actions (append_archive e idx cells st) = ls_actions st @ [AppendRow cells]"
  by (simp_all add: append_archive_def split: option.splits)







section \<open>The run\<close>











lemma run_empty:
  "sheet_rows (sheet1 wb) = [] \<Longrightarrow>
   run e wb = finish 0 [SheetEmpty] (first_actions e wb) (sheet1 wb) (first_archive wb)"
  by (simp add: run_def df_empty_def DataFrame_rows first_actions_def first_archive_def)



lemma is_sheet_action_in:
  "is_sheet_action a \<Longrightarrow> (a \<in> set (filter is_sheet_action xs)) = (a \<in> set xs)"
  by simp






lemma normalized_resolved_iff:
  assumes c: "c \<in> set required_cols"
  shows "(c \<in> set (normalized_columns cols)) = (\<not> unresolved cols c)"
proof
  assume "c \<in> set (normalized_columns cols)"
  then obtain s where s: "s \<in> set cols"
    and r: "(case renames_of cols s of Some c' \<Rightarrow> c' | None \<Rightarrow> s) = c"
    unfolding normalized_columns_def rename_columns_def by auto
  show "\<not> unresolved cols c"
  proof (cases "renames_of cols s")
    case None
    with r s show ?thesis by (simp add: unresolved_def)
  next
    case (Some c')
    with r have rc: "renames_of cols s = Some c" by simp
    then obtain vs where a: "(c, vs) \<in> set aliases"
      and f: "find_src (lower_map cols) vs = Some s"
      unfolding renames_of_def
      using build_renames_origin[of cols "lower_map cols" aliases Map.empty s c] by auto
    note fs = find_src_alias[OF a f]
    have n: "strip (lower (strip (lower s))) = strip (lower s)"
      using aliases_normal a fs by blast
    have "variant_of s (strip (lower s))" using variant_of_iff[OF n, of s] by simp
    with a fs show ?thesis unfolding unresolved_def by blast
  qed
next
  assume n: "\<not> unresolved cols c"
  from c obtain vs where a: "(c, vs) \<in> set aliases"
    unfolding aliases_required[symmetric] by auto
  have vs: "vs' = vs" if "(c, vs') \<in> set aliases" for vs'
  proof -
    have "map_of aliases c = Some vs'" using that by (rule map_of_aliases)
    moreover have "map_of aliases c = Some vs" using a by (rule map_of_aliases)
    ultimately show ?thesis by simp
  qed
  from n have "c \<in> set cols \<or> (\<exists>h \<in> set cols. \<exists>v \<in> set vs. variant_of h v)"
    unfolding unresolved_def using vs by blast
  then show "c \<in> set (normalized_columns cols)" by (rule resolved_alias[OF a])
qed

lemma missing_set: "set (missing (normalized_columns cols)) = {c \<in> set required_cols. unresolved cols c}"
  unfolding missing_def using normalized_resolved_iff by auto





text \<open>
  C8, as amended. When the first sheet has no data row, the run exits with status 0
  and prints that the sheet is empty; it leaves the first sheet as it is (the
  \<open>Processed\<close> column is not created on this path) and appends no row to the archive
  sheet, which it has created with its header when the workbook had none.
\<close>

theorem empty_sheet_run:
  assumes "sheet_rows (sheet1 wb) = []"
  shows "exit_code (run e wb) = 0 \<and> printed (run e wb) = [SheetEmpty] \<and>
         sheet1 (final (run e wb)) = sheet1 wb \<and>
         processed_ws (final (run e wb)) =
           Some (case processed_ws wb of Some rows \<Rightarrow> rows | None \<Rightarrow> [archive_header]) \<and>
         actions (run e wb) =
           (case processed_ws wb of
              Some rows \<Rightarrow> []
            | None \<Rightarrow> [AddWorksheet (PROCESSED_SHEET e) archive_header])"
  unfolding run_empty[OF assms]
  by (simp add: finish_def first_actions_def first_archive_def)

text \<open>
  A workbook with an archive sheet and no data row is left as it is.
\<close>

theorem empty_sheet_run_witness:
  "sheet_rows (sheet1 archived_book) = [] \<and>
   exit_code (run quiet_env archived_book) = 0 \<and>
   printed (run quiet_env archived_book) = [SheetEmpty] \<and>
   final (run quiet_env archived_book) = archived_book \<and>
   actions (run quiet_env archived_book) = []"
proof -
  have h: "sheet_rows (sheet1 archived_book) = []" by (simp add: archived_book_def)
  have p: "processed_ws archived_book =
      Some [archive_header, [''T0'', ''Al'', ''al@x.com'', ''cough'', ''Low'', ''Processed'']]"
    by (simp add: archived_book_def)
  have f: "final (run quiet_env archived_book) = archived_book" by code_simp
  from empty_sheet_run[OF h, of quiet_env] h p f show ?thesis by simp
qed

text \<open>
  The claim as stated fails: the report is the one of the empty sheet, not the one of
  no new inquiries, and a workbook with no archive sheet gets one.
\<close>

theorem empty_sheet_counterexample:
  "sheet_rows (sheet1 empty_book) = [] \<and>
   printed (run quiet_env empty_book) = [SheetEmpty] \<and>
   NoNewInquiries \<notin> set (printed (run quiet_env empty_book)) \<and>
   processed_ws empty_book = None \<and>
   processed_ws (final (run quiet_env empty_book)) = Some [archive_header] \<and>
   actions (run quiet_env empty_book) = [AddWorksheet ''Processed'' archive_header] \<and>
   sheet1 (final (run quiet_env empty_book)) = sheet1 empty_book"
  by code_simp




























end
